theory Spec2Isabelle
  imports Complex_Main "HOL-Library.AList" "HOL-Library.Char_ord" "HOL-Library.List_Lexorder"
begin

section \<open>Data model\<close>

text \<open>
  A JavaScript object used as a dictionary is an association list read with
  \<open>map_of\<close> and written with \<open>AList.update\<close>: a key is present once it has
  been written, and a missing key reads as \<open>None\<close> (JavaScript's \<open>undefined\<close>).
  Keys are issue ids, sprint numbers and assignee names of the data; names inherited
  from \<open>Object.prototype\<close> are outside the model. Numbers are exact: an id is an
  \<open>int\<close>, a sprint a \<open>nat\<close>, an hour count a \<open>rat\<close>. Strings are character
  lists compared position by position on character codes, as JavaScript compares code
  units.
\<close>

type_synonym ('k, 'v) dict = "('k \<times> 'v) list"

text \<open>
  The issue object. \<open>dependsOn\<close> holds key tokens (strings) while a row is being
  read and issue ids (numbers) afterwards, hence the type parameter. An absent
  \<open>assignee\<close> is the empty string, an absent \<open>estimateHours\<close> is 0, an absent
  \<open>rawRow\<close> is \<open>None\<close>.
\<close>

record 'd issue =
  id' :: int
  key :: string
  title :: string
  description :: string
  status :: string
  priority :: string
  assignee :: string
  estimateHours :: rat
  dependsOn :: "'d list"
  sprint :: nat
  rawRow :: "string list option"

section \<open>The re-plan algorithm (replan.js)\<close>

subsection \<open>Ordering of the ready queue\<close>

definition priorityWeight :: "string \<Rightarrow> int" where
  "priorityWeight p =
     (if p = ''high'' then 0
      else if p = ''medium'' then 1
      else if p = ''low'' then 2
      else 3)"

text \<open>The comparator passed to \<open>sort\<close>: negative when \<open>a\<close> goes first.\<close>

definition issueCmp :: "'d issue \<Rightarrow> 'd issue \<Rightarrow> int" where
  "issueCmp a b =
     (let pw = priorityWeight (priority a) - priorityWeight (priority b)
      in if pw \<noteq> 0 then pw
         else if key a < key b then - 1
         else if key b < key a then 1
         else 0)"

text \<open>
  The insertion loop of \<open>topoSort\<close>: \<open>f\<close> goes before the first queue element it
  is strictly smaller than (\<open>cmp < 0 || (cmp === 0 && f.key < queue[i].key)\<close>, which is
  \<open>issueCmp f q < 0\<close>), and at the end when there is none.
\<close>

fun insertSorted :: "'d issue \<Rightarrow> 'd issue list \<Rightarrow> 'd issue list" where
  "insertSorted f [] = [f]"
| "insertSorted f (q # queue) =
     (if issueCmp f q < 0 then f # q # queue else q # insertSorted f queue)"

text \<open>
  \<open>Array.prototype.sort\<close> with this comparator: the sort is stable, so its result
  is the one of inserting the elements from left to right, each after its equals.
\<close>

definition sortIssues :: "'d issue list \<Rightarrow> 'd issue list" where
  "sortIssues xs = foldl (\<lambda>acc x. insertSorted x acc) [] xs"

subsection \<open>topoSort\<close>

text \<open>
  The tables \<open>byId\<close>, \<open>inDegree\<close> and \<open>dependents\<close> get an entry for the id of
  every issue in the first pass of \<open>topoSort\<close>, and the later passes read them only at
  such ids: at \<open>issue.id\<close>, at a \<open>depId\<close> with \<open>byId[depId]\<close> present, and at the
  ids stored in \<open>dependents\<close>. The \<open>None\<close> branches below, where the JavaScript
  would read \<open>undefined\<close>, are therefore never taken in a run of \<open>topoSort\<close>; they
  leave the tables as they are.
\<close>

text \<open>\<open>inDegree[issue.id]++\<close>\<close>

definition incrDegree :: "(int, int) dict \<Rightarrow> int \<Rightarrow> (int, int) dict" where
  "incrDegree inDegree k =
     (case map_of inDegree k of
        Some v \<Rightarrow> AList.update k (v + 1) inDegree
      | None \<Rightarrow> inDegree)"

text \<open>\<open>dependents[depId].push(issue.id)\<close>\<close>

definition pushDependent :: "(int, int list) dict \<Rightarrow> int \<Rightarrow> int \<Rightarrow> (int, int list) dict" where
  "pushDependent dependents depId k =
     (case map_of dependents depId of
        Some ds \<Rightarrow> AList.update depId (ds @ [k]) dependents
      | None \<Rightarrow> dependents)"

text \<open>The body of the inner \<open>deps.forEach\<close> of the adjacency pass.\<close>

definition addEdge ::
  "(int, int issue) dict \<Rightarrow> int \<Rightarrow> (int, int) dict \<times> (int, int list) dict \<Rightarrow> int
   \<Rightarrow> (int, int) dict \<times> (int, int list) dict" where
  "addEdge byId k st depId =
     (if map_of byId depId \<noteq> None
      then (incrDegree (fst st) k, pushDependent (snd st) depId k)
      else st)"

text \<open>
  The body of \<open>dependents[issue.id].forEach\<close> in the main loop: decrement, and
  collect the dependent when its count has just reached zero.
\<close>

definition freeStep ::
  "(int, int issue) dict \<Rightarrow> (int, int) dict \<times> int issue list \<Rightarrow> int
   \<Rightarrow> (int, int) dict \<times> int issue list" where
  "freeStep byId st depId =
     (case map_of (fst st) depId of
        None \<Rightarrow> st
      | Some v \<Rightarrow>
          (AList.update depId (v - 1) (fst st),
           if v - 1 = 0
           then (case map_of byId depId of Some i \<Rightarrow> snd st @ [i] | None \<Rightarrow> snd st)
           else snd st))"

text \<open>The number of ids whose in-degree is still positive.\<close>

definition posCount :: "(int, int) dict \<Rightarrow> nat" where
  "posCount inDegree =
     card {k \<in> fst ` set inDegree. \<exists>v. map_of inDegree k = Some v \<and> 1 \<le> v}"

text \<open>
  The \<open>while (queue.length > 0)\<close> loop. Its state is the in-degree table, the queue
  and the result; \<open>byId\<close> and \<open>dependents\<close> are no longer written once the loop
  starts.
\<close>

function topoLoop ::
  "(int, int issue) dict \<Rightarrow> (int, int list) dict \<Rightarrow> (int, int) dict
   \<Rightarrow> int issue list \<Rightarrow> int issue list \<Rightarrow> int issue list" where
  "topoLoop byId dependents inDegree [] result = result"
| "topoLoop byId dependents inDegree (issue # queue) result =
     (let st = foldl (freeStep byId) (inDegree, [])
                 (case map_of dependents (id' issue) of Some ds \<Rightarrow> ds | None \<Rightarrow> []);
          freed = sortIssues (snd st)
      in topoLoop byId dependents (fst st)
           (foldl (\<lambda>q f. insertSorted f q) queue freed) (result @ [issue]))"
  by pat_completeness auto

definition topoSort :: "int issue list \<Rightarrow> int issue list" where
  "topoSort issues =
     (let byId = foldl (\<lambda>m issue. AList.update (id' issue) issue m) [] issues;
          inDegree0 = foldl (\<lambda>m issue. AList.update (id' issue) 0 m) [] issues;
          dependents0 = foldl (\<lambda>m issue. AList.update (id' issue) [] m) [] issues;
          adj = foldl (\<lambda>st issue. foldl (addEdge byId (id' issue)) st (dependsOn issue))
                  (inDegree0, dependents0) issues;
          queue = sortIssues (filter (\<lambda>i. map_of (fst adj) (id' i) = Some 0) issues)
      in topoLoop byId (snd adj) (fst adj) queue [])"

subsection \<open>replan\<close>

text \<open>
  \<open>sprintRemaining[sprint][member]\<close> is one table keyed by the pair. \<open>getRemaining\<close>
  initialises a missing entry from \<open>teamCapacity\<close>, or 80, and returns it.
\<close>

definition getRemaining ::
  "(string, rat) dict \<Rightarrow> (nat \<times> string, rat) dict \<Rightarrow> nat \<Rightarrow> string
   \<Rightarrow> rat \<times> (nat \<times> string, rat) dict" where
  "getRemaining teamCapacity sprintRemaining sprintNum member =
     (case map_of sprintRemaining (sprintNum, member) of
        Some v \<Rightarrow> (v, sprintRemaining)
      | None \<Rightarrow>
          (let c = (case map_of teamCapacity member of Some c \<Rightarrow> c | None \<Rightarrow> 80)
           in (c, AList.update (sprintNum, member) c sprintRemaining)))"

definition consumeHours ::
  "(string, rat) dict \<Rightarrow> (nat \<times> string, rat) dict \<Rightarrow> nat \<Rightarrow> string \<Rightarrow> rat
   \<Rightarrow> (nat \<times> string, rat) dict" where
  "consumeHours teamCapacity sprintRemaining sprintNum member hours =
     (let r = getRemaining teamCapacity sprintRemaining sprintNum member
      in AList.update (sprintNum, member) (fst r - hours) (snd r))"

text \<open>
  The \<open>while (true)\<close> scan for a sprint with capacity, upward from
  \<open>sprintNum\<close> (the loop's variable \<open>sprint\<close>). It returns the sprint it stops at
  and the table, whose entries the scan has initialised.
\<close>

function scanSprint ::
  "(string, rat) dict \<Rightarrow> (nat \<times> string, rat) dict \<Rightarrow> string \<Rightarrow> rat \<Rightarrow> nat
   \<Rightarrow> nat \<times> (nat \<times> string, rat) dict" where
  "scanSprint teamCapacity sprintRemaining member hours sprintNum =
     (let r = getRemaining teamCapacity sprintRemaining sprintNum member
      in if hours \<le> fst r then (sprintNum, snd r)
         else if 100 < sprintNum + 1 then (sprintNum + 1, snd r)
         else scanSprint teamCapacity (snd r) member hours (sprintNum + 1))"
  by pat_completeness auto
termination
  by (relation "measure (\<lambda>(teamCapacity, sprintRemaining, member, hours, sprintNum). 101 - sprintNum)")
     auto

text \<open>
  The earliest sprint the dependencies allow: 1, or the largest sprint recorded for a
  dependency.
\<close>

definition earliestSprint :: "(int, nat) dict \<Rightarrow> int list \<Rightarrow> nat" where
  "earliestSprint issueSprint deps =
     foldl (\<lambda>earliest depId.
              case map_of issueSprint depId of
                Some s \<Rightarrow> if earliest < s then s else earliest
              | None \<Rightarrow> earliest)
       1 deps"

text \<open>
  The body of \<open>sorted.forEach\<close>. The state is \<open>sprintRemaining\<close>, \<open>issueSprint\<close>
  and the issues placed so far, each with its \<open>sprint\<close> field written.
\<close>

definition placeIssue ::
  "(string, rat) dict
   \<Rightarrow> (nat \<times> string, rat) dict \<times> (int, nat) dict \<times> int issue list
   \<Rightarrow> int issue
   \<Rightarrow> (nat \<times> string, rat) dict \<times> (int, nat) dict \<times> int issue list" where
  "placeIssue teamCapacity st issue =
     (let sprintRemaining = fst st;
          issueSprint = fst (snd st);
          placed = snd (snd st);
          earliest = earliestSprint issueSprint (dependsOn issue);
          hours = estimateHours issue;
          member = assignee issue
      in if member = [] \<or> hours = 0
         then (sprintRemaining,
               AList.update (id' issue) earliest issueSprint,
               placed @ [issue\<lparr>sprint := earliest\<rparr>])
         else (let found = scanSprint teamCapacity sprintRemaining member hours earliest
               in (consumeHours teamCapacity (snd found) (fst found) member hours,
                   AList.update (id' issue) (fst found) issueSprint,
                   placed @ [issue\<lparr>sprint := fst found\<rparr>])))"

text \<open>
  \<open>replan\<close> returns the sorted issues, each carrying the sprint it was given. An
  issue that \<open>topoSort\<close> leaves out is not in the result.
\<close>

definition replan :: "int issue list \<Rightarrow> (string, rat) dict \<Rightarrow> int issue list" where
  "replan issues teamCapacity =
     snd (snd (foldl (placeIssue teamCapacity) ([], [], []) (topoSort issues)))"

section \<open>The CSV codec (server.js)\<close>

text \<open>
  A string is a list of characters; the parser looks at four of them. Characters are
  those of the ASCII range, where a byte, a code point and a JavaScript code unit are
  the same thing.
\<close>

abbreviation dquote :: char where "dquote \<equiv> CHR 0x22"
abbreviation comma :: char where "comma \<equiv> CHR 0x2C"
abbreviation LF :: char where "LF \<equiv> CHR 0x0A"
abbreviation CR :: char where "CR \<equiv> CHR 0x0D"

text \<open>
  The \<open>while (i < text.length)\<close> loop of \<open>parseCSV\<close>, on the text from index \<open>i\<close> on.
  It returns \<open>field\<close>, \<open>row\<close> and \<open>rows\<close> as they are when the text is used up.
\<close>

fun parseLoop ::
  "string \<Rightarrow> bool \<Rightarrow> string \<Rightarrow> string list \<Rightarrow> string list list
   \<Rightarrow> string \<times> string list \<times> string list list" where
  "parseLoop [] inQuotes field row rows = (field, row, rows)"
| "parseLoop (ch # text) inQuotes field row rows =
     (if inQuotes then
        (if ch = dquote then
           (if text \<noteq> [] \<and> hd text = dquote
            then parseLoop (tl text) True (field @ [dquote]) row rows
            else parseLoop text False field row rows)
         else parseLoop text True (field @ [ch]) row rows)
      else
        (if ch = dquote then parseLoop text True field row rows
         else if ch = comma then parseLoop text False [] (row @ [field]) rows
         else if ch = LF \<or> (ch = CR \<and> text \<noteq> [] \<and> hd text = LF)
         then parseLoop (if ch = CR then tl text else text) False [] [] (rows @ [row @ [field]])
         else parseLoop text False (field @ [ch]) row rows))"

definition parseCSV :: "string \<Rightarrow> string list \<times> string list list" where
  "parseCSV text =
     (let st = parseLoop text False [] [] [];
          field = fst st; row = fst (snd st); rows0 = snd (snd st);
          rows = (if field \<noteq> [] \<or> row \<noteq> [] then rows0 @ [row @ [field]] else rows0);
          headers = (case rows of [] \<Rightarrow> [] | h # _ \<Rightarrow> h);
          dataRows = filter (\<lambda>r. 1 < length r \<or> (case r of [] \<Rightarrow> True | f # _ \<Rightarrow> f \<noteq> []))
                       (drop 1 rows)
      in (headers, dataRows))"

definition escapeField :: "string \<Rightarrow> string" where
  "escapeField val =
     (if comma \<in> set val \<or> dquote \<in> set val \<or> LF \<in> set val \<or> CR \<in> set val
      then dquote # concat (map (\<lambda>c. if c = dquote then [dquote, dquote] else [c]) val) @ [dquote]
      else val)"

text \<open>\<open>Array.prototype.join\<close>\<close>

fun joinWith :: "string \<Rightarrow> string list \<Rightarrow> string" where
  "joinWith sep [] = []"
| "joinWith sep [x] = x"
| "joinWith sep (x # y # zs) = x @ sep @ joinWith sep (y # zs)"

definition serializeCSV :: "string list \<Rightarrow> string list list \<Rightarrow> string" where
  "serializeCSV headers dataRows =
     joinWith [LF]
       (joinWith [comma] (map escapeField headers)
        # map (\<lambda>row. joinWith [comma]
                  (map (\<lambda>i. escapeField (if i < length row then row ! i else []))
                     [0 ..< length headers]))
            dataRows)
     @ [LF]"

section \<open>Rows and issues (server.js)\<close>

subsection \<open>Cells\<close>

text \<open>\<open>Array.prototype.indexOf\<close>: the first index of \<open>x\<close>, or -1.\<close>

fun indexOf :: "'a list \<Rightarrow> 'a \<Rightarrow> int" where
  "indexOf [] x = - 1"
| "indexOf (y # ys) x =
     (if y = x then 0 else (let i = indexOf ys x in if i < 0 then - 1 else i + 1))"

definition findColIndex :: "string list \<Rightarrow> string \<Rightarrow> int" where
  "findColIndex headers name = indexOf headers name"

definition getCell :: "string list \<Rightarrow> int \<Rightarrow> string" where
  "getCell row idx = (if idx < 0 \<or> int (length row) \<le> idx then [] else row ! nat idx)"


subsection \<open>Text of numbers, numbers of text\<close>

definition isSpace :: "char \<Rightarrow> bool" where
  "isSpace c \<longleftrightarrow> c \<in> {CHR '' '', CHR 0x09, CHR 0x0A, CHR 0x0B, CHR 0x0C, CHR 0x0D}"

definition isDigit :: "char \<Rightarrow> bool" where
  "isDigit c \<longleftrightarrow> CHR ''0'' \<le> c \<and> c \<le> CHR ''9''"

definition trim :: "string \<Rightarrow> string" where
  "trim s = rev (dropWhile isSpace (rev (dropWhile isSpace s)))"

definition toLowerCase :: "string \<Rightarrow> string" where
  "toLowerCase s =
     map (\<lambda>c. if CHR ''A'' \<le> c \<and> c \<le> CHR ''Z'' then char_of (of_char c + (32 :: nat)) else c) s"

text \<open>
  \<open>parseInt(s, 10)\<close>: leading white space, a sign, then the longest run of decimal
  digits; \<open>None\<close> is \<open>NaN\<close>. The value is exact (JavaScript rounds beyond \<open>2^53\<close>).
\<close>

definition digitsValue :: "string \<Rightarrow> int" where
  "digitsValue ds = foldl (\<lambda>n c. 10 * n + (int (of_char c) - 48)) 0 ds"

definition parseInt :: "string \<Rightarrow> int option" where
  "parseInt s =
     (let t = dropWhile isSpace s;
          neg = (t \<noteq> [] \<and> hd t = CHR ''-'');
          u = (if t \<noteq> [] \<and> (hd t = CHR ''-'' \<or> hd t = CHR ''+'') then tl t else t);
          ds = takeWhile isDigit u
      in if ds = [] then None
         else Some (if neg then - digitsValue ds else digitsValue ds))"



subsection \<open>Status and priority\<close>

definition STATUS_TO_INTERNAL :: "(string, string) dict" where
  "STATUS_TO_INTERNAL =
     [(''open'', ''todo''), (''to do'', ''todo''), (''backlog'', ''todo''),
      (''in refinement'', ''todo''), (''new'', ''todo''), (''reopened'', ''todo''),
      (''in progress'', ''inprogress''), (''in development'', ''inprogress''),
      (''in review'', ''inprogress''),
      (''done'', ''done''), (''closed'', ''done''), (''resolved'', ''done'')]"

definition mapStatusToInternal :: "string \<Rightarrow> string" where
  "mapStatusToInternal csvStatus =
     (case map_of STATUS_TO_INTERNAL (trim (toLowerCase csvStatus)) of
        Some s \<Rightarrow> s | None \<Rightarrow> ''todo'')"



definition PRIORITY_TO_INTERNAL :: "(string, string) dict" where
  "PRIORITY_TO_INTERNAL =
     [(''blocker'', ''high''), (''critical'', ''high''), (''highest'', ''high''),
      (''high'', ''high''),
      (''major'', ''medium''), (''medium'', ''medium''), (''normal'', ''medium''),
      (''minor'', ''low''), (''low'', ''low''), (''trivial'', ''low''), (''lowest'', ''low'')]"

definition mapPriorityToInternal :: "string \<Rightarrow> string" where
  "mapPriorityToInternal csvPriority =
     (case map_of PRIORITY_TO_INTERNAL (trim (toLowerCase csvPriority)) of
        Some s \<Rightarrow> s | None \<Rightarrow> ''medium'')"



subsection \<open>The in-memory store\<close>

text \<open>
  The column positions. The fields are those of \<open>colIndices\<close>, each with the suffix
  \<open>Col\<close>; -1 says that the header has no such column.
\<close>

record colIndices =
  summaryCol :: int
  issueKeyCol :: int
  issueIdCol :: int
  issueTypeCol :: int
  statusCol :: int
  priorityCol :: int
  assigneeCol :: int
  descriptionCol :: int
  originalEstimateCol :: int
  dependsCol :: int
  finishToStartCol :: int
  sprintCol :: int

definition buildColIndices :: "string list \<Rightarrow> colIndices" where
  "buildColIndices headers =
     \<lparr>summaryCol = findColIndex headers ''Summary'',
      issueKeyCol = findColIndex headers ''Issue key'',
      issueIdCol = findColIndex headers ''Issue id'',
      issueTypeCol = findColIndex headers ''Issue Type'',
      statusCol = findColIndex headers ''Status'',
      priorityCol = findColIndex headers ''Priority'',
      assigneeCol = findColIndex headers ''Assignee'',
      descriptionCol = findColIndex headers ''Description'',
      originalEstimateCol = findColIndex headers ''Original Estimate'',
      dependsCol = findColIndex headers ''Inward issue link (Depends)'',
      finishToStartCol = findColIndex headers ''Inward issue link (Finish to Start)'',
      sprintCol = indexOf headers ''Sprint''\<rparr>"

text \<open>The three module variables \<open>csvHeaders\<close>, \<open>csvDataRows\<close> and \<open>colIndices\<close>.\<close>

record store =
  csvHeaders :: "string list"
  csvDataRows :: "string list list"
  colIdx :: colIndices

text \<open>The store of a freshly started server.\<close>

definition initialStore :: store where
  "initialStore = \<lparr>csvHeaders = [], csvDataRows = [], colIdx = buildColIndices []\<rparr>"

subsection \<open>From a row to an issue\<close>

text \<open>\<open>String.prototype.split\<close> at one character.\<close>

fun splitAt :: "char \<Rightarrow> string \<Rightarrow> string list" where
  "splitAt c [] = [[]]"
| "splitAt c (x # xs) =
     (if x = c then [] # splitAt c xs
      else (case splitAt c xs of p # ps \<Rightarrow> (x # p) # ps | [] \<Rightarrow> [[x]]))"

text \<open>
  \<open>raw.split(/\s*;\s*/).map(s => s.trim()).filter(Boolean)\<close>: every semicolon is in
  exactly one match of the pattern, which takes the white space around it, and every
  piece is trimmed afterwards, so the pieces are those of a split at the semicolons.
\<close>

definition parseDepsField :: "string \<Rightarrow> string list" where
  "parseDepsField raw =
     (if trim raw \<noteq> [] then filter (\<lambda>s. s \<noteq> []) (map trim (splitAt (CHR '';'') raw)) else [])"

text \<open>\<open>[...new Set(xs)]\<close>: the elements in the order of their first occurrence.\<close>

definition dedupe :: "'a list \<Rightarrow> 'a list" where
  "dedupe xs = foldl (\<lambda>acc x. if x \<in> set acc then acc else acc @ [x]) [] xs"

text \<open>
  \<open>csvRowToIssue\<close>, with the \<open>filter(i => !isNaN(i.id))\<close> that \<open>readTasks\<close> applies to
  its results: \<open>None\<close> is the row whose id is \<open>NaN\<close>, which \<open>readTasks\<close> drops.
\<close>

definition csvRowToIssue :: "colIndices \<Rightarrow> string list \<Rightarrow> string issue option" where
  "csvRowToIssue ci row =
     (let estimateSec = parseInt (getCell row (originalEstimateCol ci));
          hours = (case estimateSec of None \<Rightarrow> 0 | Some n \<Rightarrow> of_int n / 3600);
          deps1 = parseDepsField (getCell row (dependsCol ci));
          deps2 = parseDepsField (getCell row (finishToStartCol ci))
      in case parseInt (getCell row (issueIdCol ci)) of
           None \<Rightarrow> None
         | Some issueId \<Rightarrow>
             Some \<lparr>id' = issueId,
                   key = getCell row (issueKeyCol ci),
                   title = getCell row (summaryCol ci),
                   description = getCell row (descriptionCol ci),
                   status = mapStatusToInternal (getCell row (statusCol ci)),
                   priority = mapPriorityToInternal (getCell row (priorityCol ci)),
                   assignee = getCell row (assigneeCol ci),
                   estimateHours = hours,
                   dependsOn = dedupe (deps1 @ deps2),
                   sprint = 1,
                   rawRow = Some row\<rparr>)"

text \<open>
  \<open>keyToId[dep] || parseInt(dep, 10)\<close>, then \<open>filter(d => !isNaN(d))\<close>: an id found
  for the key, unless it is 0, else the number the token starts with, if any.
\<close>

definition resolveDep :: "(string, int) dict \<Rightarrow> string \<Rightarrow> int option" where
  "resolveDep keyToId dep =
     (case map_of keyToId dep of
        Some v \<Rightarrow> if v \<noteq> 0 then Some v else parseInt dep
      | None \<Rightarrow> parseInt dep)"

definition resolveIssue :: "(string, int) dict \<Rightarrow> string issue \<Rightarrow> int issue" where
  "resolveIssue keyToId i =
     \<lparr>id' = id' i, key = key i, title = title i, description = description i,
      status = status i, priority = priority i, assignee = assignee i,
      estimateHours = estimateHours i,
      dependsOn = List.map_filter (resolveDep keyToId) (dependsOn i),
      sprint = sprint i, rawRow = rawRow i\<rparr>"

text \<open>\<open>String.prototype.lastIndexOf\<close> for one character.\<close>

definition lastIndexOf :: "string \<Rightarrow> char \<Rightarrow> int" where
  "lastIndexOf s c =
     (let i = indexOf (rev s) c in if i < 0 then - 1 else int (length s) - 1 - i)"

subsection \<open>readTasks\<close>

record state =
  nextId :: int
  projectKey :: string
  sprintStart :: string
  teamCapacity :: "(string, rat) dict"
  issues :: "int issue list"
  stateHeaders :: "string list option"

text \<open>
  \<open>readTasks\<close>. The file is \<open>None\<close> when \<open>readFileSync\<close> throws; nothing else in the
  \<open>try\<close> block throws. It returns the store and the state; the state's \<open>csvHeaders\<close>
  is the field \<open>stateHeaders\<close>, which the state of the \<open>catch\<close> branch lacks.
\<close>

definition readTasks :: "store \<Rightarrow> string option \<Rightarrow> store \<times> state" where
  "readTasks st file =
     (case file of
        None \<Rightarrow>
          (st, \<lparr>nextId = 1, projectKey = ''SB'', sprintStart = ''2026-02-15'',
                teamCapacity = [], issues = [], stateHeaders = None\<rparr>)
      | Some text \<Rightarrow>
          (let parsed = parseCSV text;
               ci = buildColIndices (fst parsed);
               st' = \<lparr>csvHeaders = fst parsed, csvDataRows = snd parsed, colIdx = ci\<rparr>;
               read = List.map_filter (csvRowToIssue ci) (snd parsed);
               maxId = foldl (\<lambda>m i. max m (id' i)) 0 read;
               dash = (case read of [] \<Rightarrow> - 1 | i # _ \<Rightarrow> lastIndexOf (key i) (CHR ''-''));
               pk = (case read of
                       [] \<Rightarrow> ''SB''
                     | i # _ \<Rightarrow> if key i \<noteq> [] \<and> 0 < dash then take (nat dash) (key i)
                                else ''SB'');
               keyToId = foldl (\<lambda>m i. AList.update (key i) (id' i) m) [] read
           in (st', \<lparr>nextId = maxId + 1, projectKey = pk, sprintStart = ''2026-02-15'',
                     teamCapacity = [], issues = map (resolveIssue keyToId) read,
                     stateHeaders = Some (fst parsed)\<rparr>)))"

subsection \<open>writeTasks\<close>





section \<open>Notions used in the statements\<close>

subsection \<open>The order of topoSort\<close>

text \<open>
  The number of entries of \<open>deps\<close> that name an issue of the input not yet in the
  result: what \<open>inDegree\<close> holds for an issue with these dependencies.
\<close>

definition pending :: "int set \<Rightarrow> int set \<Rightarrow> int list \<Rightarrow> nat" where
  "pending ids finished deps = length (filter (\<lambda>d. d \<in> ids \<and> d \<notin> finished) deps)"

text \<open>Every issue of \<open>out\<close> comes after the issues of the input it depends on.\<close>

definition depsFirst :: "int set \<Rightarrow> int issue list \<Rightarrow> bool" where
  "depsFirst ids out \<longleftrightarrow>
     (\<forall>n < length out. \<forall>d \<in> set (dependsOn (out ! n)). d \<in> ids \<longrightarrow> d \<in> id' ` set (take n out))"

text \<open>The invariant of the \<open>while\<close> loop of \<open>topoSort\<close>.\<close>

definition topoInv ::
  "int issue list \<Rightarrow> (int, int) dict \<Rightarrow> int issue list \<Rightarrow> int issue list \<Rightarrow> bool" where
  "topoInv iss inDegree queue result \<longleftrightarrow>
     (\<forall>i \<in> set iss. map_of inDegree (id' i) =
         Some (int (pending (id' ` set iss) (id' ` set result) (dependsOn i))))
     \<and> set queue \<subseteq> set iss \<and> set result \<subseteq> set iss
     \<and> distinct (map id' (result @ queue))
     \<and> (\<forall>x \<in> set queue. map_of inDegree (id' x) = Some 0)
     \<and> depsFirst (id' ` set iss) result"

text \<open>What the loop needs of the two tables it only reads.\<close>

definition tablesOK ::
  "int issue list \<Rightarrow> (int, int issue) dict \<Rightarrow> (int, int list) dict \<Rightarrow> bool" where
  "tablesOK iss byId dependents \<longleftrightarrow>
     (\<forall>k y. map_of byId k = Some y \<longrightarrow> id' y = k \<and> y \<in> set iss)
     \<and> (\<forall>x \<in> set iss. \<exists>ds. map_of dependents (id' x) = Some ds
            \<and> set ds \<subseteq> id' ` set iss
            \<and> (\<forall>j \<in> set iss. count_list ds (id' j) = count_list (dependsOn j) (id' x)))"

subsection \<open>The placement loop\<close>

text \<open>
  The invariant of the \<open>sorted.forEach\<close> loop of \<open>replan\<close>, after the issues \<open>xs\<close>:
  they are the placed issues up to their sprints, \<open>issueSprint\<close> records those sprints,
  and no placed issue is in an earlier sprint than a placed issue it depends on.
\<close>

definition placedInv :: "int set \<Rightarrow> int issue list \<Rightarrow>
    (nat \<times> string, rat) dict \<times> (int, nat) dict \<times> int issue list \<Rightarrow> bool" where
  "placedInv ids xs st \<longleftrightarrow>
     map (\<lambda>p. p\<lparr>sprint := 0\<rparr>) (snd (snd st)) = map (\<lambda>p. p\<lparr>sprint := 0\<rparr>) xs
     \<and> (\<forall>p \<in> set (snd (snd st)). map_of (fst (snd st)) (id' p) = Some (sprint p))
     \<and> (\<forall>p \<in> set (snd (snd st)). \<forall>d \<in> set (snd (snd st)).
           id' d \<in> set (dependsOn p) \<longrightarrow> sprint d \<le> sprint p)"

text \<open>Issue \<open>a\<close> of the input names issue \<open>b\<close> of the input in its \<open>dependsOn\<close>.\<close>

definition dependsEdge :: "int issue list \<Rightarrow> int \<Rightarrow> int \<Rightarrow> bool" where
  "dependsEdge iss a b \<longleftrightarrow>
     (\<exists>x \<in> set iss. id' x = a \<and> b \<in> set (dependsOn x)) \<and> b \<in> id' ` set iss"

text \<open>A list of ids in which each depends on the next.\<close>

fun depChain :: "int issue list \<Rightarrow> int list \<Rightarrow> bool" where
  "depChain iss [] = True"
| "depChain iss [a] = True"
| "depChain iss (a # b # rest) = (dependsEdge iss a b \<and> depChain iss (b # rest))"

subsection \<open>Example issues\<close>

text \<open>Alice has 40 hours and then 50 that depend on them; Bob has 30.\<close>

definition issueA :: "int issue" where
  "issueA = \<lparr>id' = 1, key = ''A'', title = ''A'', description = [], status = ''todo'',
     priority = ''high'', assignee = ''Alice'', estimateHours = 40, dependsOn = [],
     sprint = 1, rawRow = None\<rparr>"

definition issueB :: "int issue" where
  "issueB = \<lparr>id' = 2, key = ''B'', title = ''B'', description = [], status = ''todo'',
     priority = ''medium'', assignee = ''Alice'', estimateHours = 50, dependsOn = [1],
     sprint = 1, rawRow = None\<rparr>"

definition issueC :: "int issue" where
  "issueC = \<lparr>id' = 3, key = ''C'', title = ''C'', description = [], status = ''todo'',
     priority = ''low'', assignee = ''Bob'', estimateHours = 30, dependsOn = [],
     sprint = 1, rawRow = None\<rparr>"

text \<open>An issue that has the id of A.\<close>

definition issueTwin :: "int issue" where
  "issueTwin = \<lparr>id' = 1, key = ''T'', title = ''T'', description = [], status = ''todo'',
     priority = ''low'', assignee = ''Alice'', estimateHours = 80, dependsOn = [],
     sprint = 1, rawRow = None\<rparr>"

text \<open>Two issues that depend on each other.\<close>

definition issueX :: "int issue" where
  "issueX = \<lparr>id' = 1, key = ''X'', title = ''X'', description = [], status = ''todo'',
     priority = ''medium'', assignee = [], estimateHours = 0, dependsOn = [2],
     sprint = 1, rawRow = None\<rparr>"

definition issueY :: "int issue" where
  "issueY = \<lparr>id' = 2, key = ''Y'', title = ''Y'', description = [], status = ''todo'',
     priority = ''medium'', assignee = [], estimateHours = 0, dependsOn = [1],
     sprint = 1, rawRow = None\<rparr>"


subsection \<open>Capacity\<close>

text \<open>The hours a sprint still has for a member, as \<open>getRemaining\<close> reads them.\<close>

definition capacityOf :: "(string, rat) dict \<Rightarrow> string \<Rightarrow> rat" where
  "capacityOf caps member =
     (case map_of caps member of Some c \<Rightarrow> c | None \<Rightarrow> 80)"

definition remainingOf ::
  "(string, rat) dict \<Rightarrow> (nat \<times> string, rat) dict \<Rightarrow> nat \<Rightarrow> string \<Rightarrow> rat" where
  "remainingOf caps sprintRemaining sprintNum member =
     fst (getRemaining caps sprintRemaining sprintNum member)"






text \<open>An issue of more hours than a sprint of its assignee has.\<close>

definition issueOver :: "int issue" where
  "issueOver = \<lparr>id' = 1, key = ''O'', title = ''O'', description = [], status = ''todo'',
     priority = ''high'', assignee = ''Alice'', estimateHours = 100, dependsOn = [],
     sprint = 1, rawRow = None\<rparr>"

subsection \<open>Rows of the file\<close>

text \<open>The dependency tokens of a row: those of its two link columns, each once.\<close>

definition depTokens :: "colIndices \<Rightarrow> string list \<Rightarrow> string list" where
  "depTokens ci row =
     dedupe (parseDepsField (getCell row (dependsCol ci))
             @ parseDepsField (getCell row (finishToStartCol ci)))"

text \<open>A file whose first row names an id and a key that no row has.\<close>

definition danglingFile :: string where
  "danglingFile =
     ''Issue key,Issue id,Inward issue link (Depends)'' @ [LF]
     @ ''SB-1,1,999; nobody'' @ [LF]
     @ ''SB-2,2,SB-1'' @ [LF]"




section \<open>Termination of the topoSort loop\<close>

lemma posCount_freeStep:
  "posCount (fst (freeStep byId st d)) + length (snd (freeStep byId st d))
     \<le> posCount (fst st) + length (snd st)"
proof (cases "map_of (fst st) d")
  case None
  then show ?thesis by (simp add: freeStep_def)
next
  case (Some v)
  let ?P = "\<lambda>m k. \<exists>w. map_of m k = Some w \<and> (1::int) \<le> w"
  let ?m = "fst st"
  let ?m' = "AList.update d (v - 1) ?m"
  have dk: "d \<in> fst ` set ?m" using map_of_SomeD[OF Some] by force
  have keys: "fst ` set ?m' = fst ` set ?m"
    using dk by (auto simp: AList.dom_update)
  have fin: "finite {k \<in> fst ` set ?m. ?P ?m k}" by simp
  show ?thesis
  proof (cases "v - 1 = 0")
    case True
    then have v1: "v = 1" by simp
    have eq: "{k \<in> fst ` set ?m'. ?P ?m' k} = {k \<in> fst ` set ?m. ?P ?m k} - {d}"
      unfolding keys using v1 by (auto simp: AList.update_conv')
    have din: "d \<in> {k \<in> fst ` set ?m. ?P ?m k}" using dk Some v1 by simp
    have "card ({k \<in> fst ` set ?m. ?P ?m k} - {d}) + 1 = card {k \<in> fst ` set ?m. ?P ?m k}"
      using din fin by (metis (no_types, lifting) Suc_eq_plus1 card_Suc_Diff1)
    then have "posCount ?m' + 1 = posCount ?m"
      unfolding posCount_def eq by simp
    then show ?thesis using Some True
      by (auto simp: freeStep_def split: option.splits)
  next
    case False
    have sub: "{k \<in> fst ` set ?m'. ?P ?m' k} \<subseteq> {k \<in> fst ` set ?m. ?P ?m k}"
      unfolding keys using Some by (auto simp: AList.update_conv' split: if_splits)
    have "posCount ?m' \<le> posCount ?m"
      unfolding posCount_def by (rule card_mono[OF fin sub])
    then show ?thesis using Some False by (simp add: freeStep_def)
  qed
qed

lemma posCount_foldl_freeStep:
  "posCount (fst (foldl (freeStep byId) st ds)) + length (snd (foldl (freeStep byId) st ds))
     \<le> posCount (fst st) + length (snd st)"
proof (induction ds arbitrary: st)
  case Nil
  show ?case by simp
next
  case (Cons d ds)
  have "posCount (fst (foldl (freeStep byId) (freeStep byId st d) ds))
          + length (snd (foldl (freeStep byId) (freeStep byId st d) ds))
        \<le> posCount (fst (freeStep byId st d)) + length (snd (freeStep byId st d))"
    by (rule Cons.IH)
  also have "\<dots> \<le> posCount (fst st) + length (snd st)"
    by (rule posCount_freeStep)
  finally show ?case by simp
qed

lemma length_insertSorted: "length (insertSorted f q) = Suc (length q)"
  by (induction q) simp_all

lemma length_foldl_insertSorted:
  "length (foldl (\<lambda>q f. insertSorted f q) q fs) = length q + length fs"
  by (induction fs arbitrary: q) (simp_all add: length_insertSorted)

lemma length_sortIssues: "length (sortIssues xs) = length xs"
  unfolding sortIssues_def using length_foldl_insertSorted[of "[]" xs] by simp

text \<open>
  Every round takes one issue off the queue, and an issue enters the queue only when its
  in-degree falls to zero.
\<close>

termination topoLoop
proof (relation "measure (\<lambda>(byId, dependents, inDegree, queue, result).
                            posCount inDegree + length queue)", goal_cases)
  case 1
  show ?case by simp
next
  case (2 byId dependents inDegree issue queue result st freed)
  have "posCount (fst st) + length (snd st) \<le> posCount inDegree"
    using posCount_foldl_freeStep[of byId "(inDegree, [])"] 2(1) by simp
  then show ?case
    using 2(2) by (simp add: length_foldl_insertSorted length_sortIssues)
qed

section \<open>Properties of topoSort\<close>

subsection \<open>Queue insertion keeps the elements\<close>

lemma set_insertSorted: "set (insertSorted f q) = insert f (set q)"
  by (induction q) auto

lemma set_foldl_insertSorted:
  "set (foldl (\<lambda>q f. insertSorted f q) q fs) = set q \<union> set fs"
  by (induction fs arbitrary: q) (auto simp: set_insertSorted)

lemma set_sortIssues: "set (sortIssues xs) = set xs"
  unfolding sortIssues_def using set_foldl_insertSorted[of "[]" xs] by simp

lemma distinct_map_insertSorted:
  "distinct (map g (insertSorted f q)) \<longleftrightarrow> g f \<notin> g ` set q \<and> distinct (map g q)"
  by (induction q) (auto simp: set_insertSorted)

lemma distinct_map_foldl_insertSorted:
  "distinct (map g (foldl (\<lambda>q f. insertSorted f q) q fs)) \<longleftrightarrow> distinct (map g (q @ fs))"
  by (induction fs arbitrary: q) (auto simp: distinct_map_insertSorted set_insertSorted)

lemma distinct_map_sortIssues: "distinct (map g (sortIssues xs)) \<longleftrightarrow> distinct (map g xs)"
  unfolding sortIssues_def using distinct_map_foldl_insertSorted[of g "[]" xs] by simp

subsection \<open>Tables built by a pass over the issues\<close>

lemma map_of_foldl_update:
  "map_of (foldl (\<lambda>m i. AList.update (g i) (f i) m) m0 xs) k =
     (if k \<in> g ` set xs then map_of (foldl (\<lambda>m i. AList.update (g i) (f i) m) m0 xs) k
      else map_of m0 k)"
  by (induction xs rule: rev_induct) (auto simp: AList.update_conv')

lemma map_of_foldl_update_notin:
  "k \<notin> g ` set xs \<Longrightarrow> map_of (foldl (\<lambda>m i. AList.update (g i) (f i) m) m0 xs) k = map_of m0 k"
  using map_of_foldl_update[of g f m0 xs k] by simp

lemma map_of_foldl_update_in:
  "k \<in> g ` set xs \<Longrightarrow>
     \<exists>i \<in> set xs. g i = k \<and> map_of (foldl (\<lambda>m i. AList.update (g i) (f i) m) m0 xs) k = Some (f i)"
  by (induction xs rule: rev_induct) (auto simp: AList.update_conv')

lemma map_of_foldl_update_distinct:
  "distinct (map g xs) \<Longrightarrow> i \<in> set xs \<Longrightarrow>
     map_of (foldl (\<lambda>m i. AList.update (g i) (f i) m) m0 xs) (g i) = Some (f i)"
proof (induction xs rule: rev_induct)
  case Nil
  then show ?case by simp
next
  case (snoc x xs)
  show ?case
  proof (cases "i = x")
    case True
    then show ?thesis by (simp add: AList.update_conv')
  next
    case False
    then have "i \<in> set xs" using snoc.prems by simp
    moreover have "g i \<noteq> g x" using snoc.prems \<open>i \<in> set xs\<close> by (auto simp: image_iff)
    ultimately show ?thesis using snoc by (simp add: AList.update_conv')
  qed
qed

subsection \<open>The decrement pass\<close>

lemma freeStep_degree:
  "map_of (fst (foldl (freeStep byId) st ds)) k =
     map_option (\<lambda>v. v - int (count_list ds k)) (map_of (fst st) k)"
proof (induction ds arbitrary: st)
  case Nil
  show ?case by (simp add: option.map_ident)
next
  case (Cons d ds)
  have step: "map_of (fst (freeStep byId st d)) k =
      map_option (\<lambda>v. v - (if d = k then 1 else 0)) (map_of (fst st) k)"
    by (cases "map_of (fst st) d"; cases "map_of (fst st) k")
       (auto simp: freeStep_def AList.update_conv')
  have "map_of (fst (foldl (freeStep byId) st (d # ds))) k =
      map_option (\<lambda>v. v - int (count_list ds k)) (map_of (fst (freeStep byId st d)) k)"
    using Cons.IH[of "freeStep byId st d"] by simp
  then show ?case
    unfolding step by (cases "map_of (fst st) k") auto
qed

subsection \<open>The adjacency pass\<close>

lemma map_of_incrDegree:
  "map_of (incrDegree m k) j = (if j = k then map_option (\<lambda>v. v + 1) (map_of m k) else map_of m j)"
  by (cases "map_of m k") (auto simp: incrDegree_def AList.update_conv')

lemma map_of_pushDependent:
  "map_of (pushDependent m d k) j =
     (if j = d then map_option (\<lambda>l. l @ [k]) (map_of m d) else map_of m j)"
  by (cases "map_of m d") (auto simp: pushDependent_def AList.update_conv')

lemma addEdge_fst:
  "map_of (fst (addEdge byId k st d)) j =
      (if j = k \<and> map_of byId d \<noteq> None then map_option (\<lambda>v. v + 1) (map_of (fst st) k)
       else map_of (fst st) j)"
  by (cases "map_of byId d") (simp_all add: addEdge_def map_of_incrDegree)

lemma addEdge_snd:
  "map_of (snd (addEdge byId k st e)) d =
      (if d = e \<and> map_of byId e \<noteq> None then map_option (\<lambda>l. l @ [k]) (map_of (snd st) d)
       else map_of (snd st) d)"
  by (cases "map_of byId e") (simp_all add: addEdge_def map_of_pushDependent)

lemma addEdge_degree:
  "map_of (fst (foldl (addEdge byId k) st dl)) j =
     (if j = k
      then map_option (\<lambda>v. v + int (length (filter (\<lambda>d. map_of byId d \<noteq> None) dl)))
             (map_of (fst st) k)
      else map_of (fst st) j)"
proof (induction dl arbitrary: st)
  case Nil
  show ?case by (simp add: option.map_ident)
next
  case (Cons d dl)
  have "map_of (fst (foldl (addEdge byId k) st (d # dl))) j =
     (if j = k
      then map_option (\<lambda>v. v + int (length (filter (\<lambda>d. map_of byId d \<noteq> None) dl)))
             (map_of (fst (addEdge byId k st d)) k)
      else map_of (fst (addEdge byId k st d)) j)"
    using Cons.IH[of "addEdge byId k st d"] by simp
  also have "\<dots> = (if j = k
      then map_option (\<lambda>v. v + int (length (filter (\<lambda>d. map_of byId d \<noteq> None) (d # dl))))
             (map_of (fst st) k)
      else map_of (fst st) j)"
    unfolding addEdge_fst by (cases "map_of (fst st) k") simp_all
  finally show ?case .
qed

lemma addEdge_dependents:
  "map_of (snd (foldl (addEdge byId k) st dl)) d =
     map_option (\<lambda>l. l @ replicate (count_list (filter (\<lambda>d. map_of byId d \<noteq> None) dl) d) k)
       (map_of (snd st) d)"
proof (induction dl arbitrary: st)
  case Nil
  show ?case by (simp add: option.map_ident)
next
  case (Cons e dl)
  have "map_of (snd (foldl (addEdge byId k) st (e # dl))) d =
     map_option (\<lambda>l. l @ replicate (count_list (filter (\<lambda>d. map_of byId d \<noteq> None) dl) d) k)
       (map_of (snd (addEdge byId k st e)) d)"
    using Cons.IH[of "addEdge byId k st e"] by simp
  also have "\<dots> = map_option
       (\<lambda>l. l @ replicate (count_list (filter (\<lambda>d. map_of byId d \<noteq> None) (e # dl)) d) k)
       (map_of (snd st) d)"
    unfolding addEdge_snd
    by (cases "map_of (snd st) d"; cases "map_of byId e"; cases "d = e")
       simp_all
  finally show ?case .
qed

lemma freeStep_None: "map_of (fst st) d = None \<Longrightarrow> freeStep byId st d = st"
  by (simp add: freeStep_def)

lemma freeStep_Some_fst:
  "map_of (fst st) d = Some v \<Longrightarrow> fst (freeStep byId st d) = AList.update d (v - 1) (fst st)"
  by (simp add: freeStep_def)

lemma freeStep_Some_snd:
  "map_of (fst st) d = Some v \<Longrightarrow>
     snd (freeStep byId st d) =
       (if v = 1 then (case map_of byId d of Some i \<Rightarrow> snd st @ [i] | None \<Rightarrow> snd st)
        else snd st)"
  by (simp add: freeStep_def)

lemma freeStep_freed:
  assumes byIdOK: "\<And>k y. map_of byId k = Some y \<Longrightarrow> id' y = k"
  shows "\<exists>new. snd (foldl (freeStep byId) st ds) = snd st @ new \<and> distinct (map id' new) \<and>
           (\<forall>y \<in> set new. id' y \<in> set ds \<and> map_of byId (id' y) = Some y
               \<and> (\<exists>v. map_of (fst st) (id' y) = Some v \<and> 1 \<le> v)
               \<and> (\<exists>w. map_of (fst (foldl (freeStep byId) st ds)) (id' y) = Some w \<and> w \<le> 0))"
proof (induction ds arbitrary: st)
  case Nil
  show ?case by simp
next
  case (Cons d ds)
  let ?st1 = "freeStep byId st d"
  let ?fin = "foldl (freeStep byId) ?st1 ds"
  let ?Q = "\<lambda>st0 dl y. id' y \<in> set dl \<and> map_of byId (id' y) = Some y
               \<and> (\<exists>v. map_of (fst st0) (id' y) = Some v \<and> 1 \<le> v)
               \<and> (\<exists>w. map_of (fst ?fin) (id' y) = Some w \<and> w \<le> 0)"
  have fin: "foldl (freeStep byId) st (d # ds) = ?fin" by simp
  from Cons.IH[of ?st1] obtain new where
    new: "snd ?fin = snd ?st1 @ new" "distinct (map id' new)"
    and props: "\<forall>y \<in> set new. ?Q ?st1 ds y"
    by blast
  show ?case
  proof (cases "map_of (fst st) d")
    case None
    then have same: "?st1 = st" by (rule freeStep_None)
    have "\<forall>y \<in> set new. ?Q st (d # ds) y"
      using props unfolding same by simp
    then show ?thesis
      unfolding fin using new unfolding same by blast
  next
    case (Some v)
    have fst1: "map_of (fst ?st1) = (map_of (fst st))(d \<mapsto> v - 1)"
      by (simp add: freeStep_Some_fst[OF Some] AList.update_conv')
    have old: "\<exists>v'. map_of (fst st) (id' y) = Some v' \<and> 1 \<le> v'" if "y \<in> set new" for y
    proof -
      from props that obtain v1 where v1: "map_of (fst ?st1) (id' y) = Some v1" "1 \<le> v1"
        by blast
      show ?thesis
      proof (cases "id' y = d")
        case True
        then have "v1 = v - 1" using v1 fst1 by simp
        then show ?thesis using True Some v1 by simp
      next
        case False
        then show ?thesis using v1 fst1 by simp
      qed
    qed
    have keep: "?Q st (d # ds) y" if "y \<in> set new" for y
    proof -
      have "?Q ?st1 ds y" using props that by blast
      then show ?thesis using old[OF that] by simp
    qed
    show ?thesis
    proof (cases "v = 1 \<and> map_of byId d \<noteq> None")
      case True
      then obtain i where i: "map_of byId d = Some i" by blast
      have idi: "id' i = d" using byIdOK[OF i] .
      have snd1: "snd ?st1 = snd st @ [i]"
        using True i by (simp add: freeStep_Some_snd[OF Some])
      have notin: "d \<notin> id' ` set new"
      proof
        assume "d \<in> id' ` set new"
        then obtain y where y: "y \<in> set new" "id' y = d" by auto
        from props y(1) obtain v1 where "map_of (fst ?st1) (id' y) = Some v1" "1 \<le> v1"
          by blast
        then show False using y(2) fst1 True by simp
      qed
      have final: "\<exists>w. map_of (fst ?fin) d = Some w \<and> w \<le> 0"
        using freeStep_degree[of byId st "d # ds" d] Some True unfolding fin by simp
      have Qi: "?Q st (d # ds) i"
        using final idi i Some True by simp
      have 1: "snd ?fin = snd st @ (i # new)" using new(1) snd1 by simp
      have 2: "distinct (map id' (i # new))" using new(2) notin idi by simp
      have 3: "\<forall>y \<in> set (i # new). ?Q st (d # ds) y"
        using Qi keep by simp
      show ?thesis unfolding fin
        by (rule exI[of _ "i # new"]) (use 1 2 3 in blast)
    next
      case False
      have snd1: "snd ?st1 = snd st"
        using False by (auto simp: freeStep_Some_snd[OF Some] split: option.splits)
      have 1: "snd ?fin = snd st @ new" using new(1) snd1 by simp
      have 3: "\<forall>y \<in> set new. ?Q st (d # ds) y"
        using keep by blast
      show ?thesis unfolding fin
        by (rule exI[of _ new]) (use 1 new(2) 3 in blast)
    qed
  qed
qed

lemma adj_degree:
  "map_of (fst (foldl (\<lambda>st issue. foldl (addEdge byId (id' issue)) st (dependsOn issue)) st xs)) j =
     map_option
       (\<lambda>v. v + (\<Sum>i\<leftarrow>xs. if id' i = j
                       then int (length (filter (\<lambda>d. map_of byId d \<noteq> None) (dependsOn i)))
                       else 0))
       (map_of (fst st) j)"
proof (induction xs arbitrary: st)
  case Nil
  show ?case by (simp add: option.map_ident)
next
  case (Cons x xs)
  let ?st1 = "foldl (addEdge byId (id' x)) st (dependsOn x)"
  have "map_of (fst (foldl (\<lambda>st issue. foldl (addEdge byId (id' issue)) st (dependsOn issue))
                st (x # xs))) j =
     map_option
       (\<lambda>v. v + (\<Sum>i\<leftarrow>xs. if id' i = j
                       then int (length (filter (\<lambda>d. map_of byId d \<noteq> None) (dependsOn i)))
                       else 0))
       (map_of (fst ?st1) j)"
    using Cons.IH[of ?st1] by simp
  then show ?case
    unfolding addEdge_degree by (cases "map_of (fst st) j"; cases "j = id' x") simp_all
qed

lemma adj_dependents:
  "map_of (snd (foldl (\<lambda>st issue. foldl (addEdge byId (id' issue)) st (dependsOn issue)) st xs)) d =
     map_option
       (\<lambda>l. l @ concat (map (\<lambda>i. replicate
                  (count_list (filter (\<lambda>d. map_of byId d \<noteq> None) (dependsOn i)) d) (id' i)) xs))
       (map_of (snd st) d)"
proof (induction xs arbitrary: st)
  case Nil
  show ?case by (simp add: option.map_ident)
next
  case (Cons x xs)
  let ?st1 = "foldl (addEdge byId (id' x)) st (dependsOn x)"
  have "map_of (snd (foldl (\<lambda>st issue. foldl (addEdge byId (id' issue)) st (dependsOn issue))
                st (x # xs))) d =
     map_option
       (\<lambda>l. l @ concat (map (\<lambda>i. replicate
                  (count_list (filter (\<lambda>d. map_of byId d \<noteq> None) (dependsOn i)) d) (id' i)) xs))
       (map_of (snd ?st1) d)"
    using Cons.IH[of ?st1] by simp
  then show ?case
    unfolding addEdge_dependents by (cases "map_of (snd st) d") simp_all
qed

lemma sum_list_pick_none:
  "a \<notin> g ` set xs \<Longrightarrow> (\<Sum>i\<leftarrow>xs. if g i = a then f i else 0) = (0 :: int)"
  by (induction xs) auto

lemma sum_list_pick:
  "distinct (map g xs) \<Longrightarrow> i0 \<in> set xs \<Longrightarrow>
     (\<Sum>i\<leftarrow>xs. if g i = g i0 then f i else 0) = (f i0 :: int)"
proof (induction xs)
  case Nil
  then show ?case by simp
next
  case (Cons x xs)
  show ?case
  proof (cases "i0 = x")
    case True
    have "(\<Sum>i\<leftarrow>xs. if g i = g x then f i else 0) = 0"
      using Cons.prems(1) by (intro sum_list_pick_none) simp
    then show ?thesis using True by simp
  next
    case False
    then have in_xs: "i0 \<in> set xs" using Cons.prems by simp
    then have "g x \<noteq> g i0" using Cons.prems(1) by (auto simp: image_iff)
    then show ?thesis using Cons.IH in_xs Cons.prems(1) by simp
  qed
qed

lemma count_list_replicate: "count_list (replicate n x) y = (if x = y then n else 0)"
  by (induction n) auto

lemma count_list_concat_pick:
  "distinct (map g xs) \<Longrightarrow> j \<in> set xs \<Longrightarrow>
     count_list (concat (map (\<lambda>i. replicate (n i) (g i)) xs)) (g j) = n j"
proof (induction xs)
  case Nil
  then show ?case by simp
next
  case (Cons x xs)
  have notin: "g x \<notin> g ` set xs" using Cons.prems(1) by simp
  show ?case
  proof (cases "j = x")
    case True
    have "count_list (concat (map (\<lambda>i. replicate (n i) (g i)) xs)) (g x) = 0"
      using notin by (induction xs) (auto simp: count_list_replicate)
    then show ?thesis using True by (simp add: count_list_replicate)
  next
    case False
    then have in_xs: "j \<in> set xs" using Cons.prems by simp
    then have "g x \<noteq> g j" using notin by (auto simp: image_iff)
    then show ?thesis using Cons.IH in_xs Cons.prems(1) by (simp add: count_list_replicate)
  qed
qed

lemma set_concat_replicate:
  "set (concat (map (\<lambda>i. replicate (n i) (g i)) xs)) \<subseteq> g ` set xs"
  by (induction xs) auto

lemma count_list_filter:
  "count_list (filter P xs) d = (if P d then count_list xs d else 0)"
  by (induction xs) auto

subsection \<open>Pending dependencies\<close>

lemma pending_insert:
  "k \<in> ids \<Longrightarrow> k \<notin> finished \<Longrightarrow>
     pending ids finished deps = pending ids (insert k finished) deps + count_list deps k"
  unfolding pending_def by (induction deps) auto

lemma pending_zero:
  "pending ids finished deps = 0 \<longleftrightarrow> (\<forall>d \<in> set deps. d \<in> ids \<longrightarrow> d \<in> finished)"
  unfolding pending_def by (auto simp: filter_empty_conv)

lemma pending_mono:
  "finished \<subseteq> finished' \<Longrightarrow> pending ids finished' deps \<le> pending ids finished deps"
  unfolding pending_def by (induction deps) auto

lemma depsFirst_Nil: "depsFirst ids []"
  by (simp add: depsFirst_def)

lemma depsFirst_snoc:
  "depsFirst ids (out @ [x]) \<longleftrightarrow>
     depsFirst ids out \<and> (\<forall>d \<in> set (dependsOn x). d \<in> ids \<longrightarrow> d \<in> id' ` set out)"
proof
  assume L: "depsFirst ids (out @ [x])"
  have "depsFirst ids out"
    unfolding depsFirst_def
  proof (intro allI impI ballI)
    fix n d assume n: "n < length out" and d: "d \<in> set (dependsOn (out ! n))" "d \<in> ids"
    have "d \<in> id' ` set (take n (out @ [x]))"
      using L n d unfolding depsFirst_def
      by (metis length_append_singleton less_Suc_eq nth_append)
    then show "d \<in> id' ` set (take n out)" using n by simp
  qed
  moreover have "\<forall>d \<in> set (dependsOn x). d \<in> ids \<longrightarrow> d \<in> id' ` set out"
  proof (intro ballI impI)
    fix d assume d: "d \<in> set (dependsOn x)" "d \<in> ids"
    have "length out < length (out @ [x])" by simp
    moreover have "(out @ [x]) ! length out = x" by simp
    ultimately have "d \<in> id' ` set (take (length out) (out @ [x]))"
      using L d unfolding depsFirst_def by metis
    then show "d \<in> id' ` set out" by simp
  qed
  ultimately show "depsFirst ids out \<and> (\<forall>d \<in> set (dependsOn x). d \<in> ids \<longrightarrow> d \<in> id' ` set out)"
    by simp
next
  assume R: "depsFirst ids out \<and> (\<forall>d \<in> set (dependsOn x). d \<in> ids \<longrightarrow> d \<in> id' ` set out)"
  show "depsFirst ids (out @ [x])"
    unfolding depsFirst_def
  proof (intro allI impI ballI)
    fix n d
    assume n: "n < length (out @ [x])" and d: "d \<in> set (dependsOn ((out @ [x]) ! n))" "d \<in> ids"
    show "d \<in> id' ` set (take n (out @ [x]))"
    proof (cases "n < length out")
      case True
      then have "d \<in> id' ` set (take n out)"
        using R d unfolding depsFirst_def by (simp add: nth_append)
      then show ?thesis using True by simp
    next
      case False
      then have "n = length out" using n by simp
      then show ?thesis using R d by simp
    qed
  qed
qed

lemma depsFirst_pending:
  assumes "depsFirst ids out" "z \<in> set out"
  shows "pending ids (id' ` set out) (dependsOn z) = 0"
proof -
  from assms(2) obtain n where n: "n < length out" "out ! n = z"
    by (auto simp: in_set_conv_nth)
  have "\<forall>d \<in> set (dependsOn z). d \<in> ids \<longrightarrow> d \<in> id' ` set (take n out)"
    using assms(1) n unfolding depsFirst_def by blast
  moreover have "set (take n out) \<subseteq> set out" by (rule set_take_subset)
  ultimately show ?thesis unfolding pending_zero by blast
qed

lemma topoInv_step:
  assumes T: "tablesOK iss byId dependents"
    and I: "topoInv iss inDegree (x # q) result"
    and st: "st = foldl (freeStep byId) (inDegree, [])
                   (case map_of dependents (id' x) of Some ds \<Rightarrow> ds | None \<Rightarrow> [])"
  shows "topoInv iss (fst st) (foldl (\<lambda>q f. insertSorted f q) q (sortIssues (snd st)))
           (result @ [x])"
proof -
  let ?ids = "id' ` set iss"
  let ?D = "id' ` set result"
  let ?D' = "insert (id' x) ?D"
  have Ia0: "\<forall>i \<in> set iss.
      map_of inDegree (id' i) = Some (int (pending ?ids ?D (dependsOn i)))"
    and Iq: "set (x # q) \<subseteq> set iss" and Ir: "set result \<subseteq> set iss"
    and Id: "distinct (map id' (result @ x # q))"
    and Iz0: "\<forall>z \<in> set (x # q). map_of inDegree (id' z) = Some 0"
    and Io: "depsFirst ?ids result"
    using I unfolding topoInv_def by simp_all
  have Ia: "map_of inDegree (id' i) = Some (int (pending ?ids ?D (dependsOn i)))"
    if "i \<in> set iss" for i
    using Ia0 that by (rule bspec)
  have Iz: "map_of inDegree (id' z) = Some 0" if "z \<in> set (x # q)" for z
    using Iz0 that by (rule bspec)
  have T1: "\<forall>k y. map_of byId k = Some y \<longrightarrow> id' y = k \<and> y \<in> set iss"
    and T2: "\<forall>x \<in> set iss. \<exists>ds. map_of dependents (id' x) = Some ds
            \<and> set ds \<subseteq> id' ` set iss
            \<and> (\<forall>j \<in> set iss. count_list ds (id' j) = count_list (dependsOn j) (id' x))"
    using T unfolding tablesOK_def by simp_all
  have byId: "\<And>k y. map_of byId k = Some y \<Longrightarrow> id' y = k"
    and byIdIn: "\<And>k y. map_of byId k = Some y \<Longrightarrow> y \<in> set iss"
    using T1 by blast+
  have xin: "x \<in> set iss" using Iq by simp
  from bspec[OF T2 xin] obtain ds where ds: "map_of dependents (id' x) = Some ds" "set ds \<subseteq> ?ids"
    and cnt0: "\<forall>j \<in> set iss. count_list ds (id' j) = count_list (dependsOn j) (id' x)"
    by blast
  have cnt: "count_list ds (id' j) = count_list (dependsOn j) (id' x)" if "j \<in> set iss" for j
    using cnt0 that by (rule bspec)
  have st': "st = foldl (freeStep byId) (inDegree, []) ds" using st ds by simp
  have xD: "id' x \<notin> ?D" using Id by auto
  have xids: "id' x \<in> ?ids" using xin by simp
  have pend_x: "pending ?ids ?D (dependsOn x) = 0"
    using Ia[OF xin] Iz[of x] by simp
  have deg: "map_of (fst st) (id' i) = Some (int (pending ?ids ?D' (dependsOn i)))"
    if "i \<in> set iss" for i
  proof -
    have "map_of (fst st) (id' i) =
        Some (int (pending ?ids ?D (dependsOn i)) - int (count_list ds (id' i)))"
      unfolding st' freeStep_degree using Ia[OF that] by simp
    moreover have "pending ?ids ?D (dependsOn i) =
        pending ?ids ?D' (dependsOn i) + count_list (dependsOn i) (id' x)"
      by (rule pending_insert[OF xids xD])
    ultimately show ?thesis using cnt[OF that] by simp
  qed
  from freeStep_freed[of byId "(inDegree, [])" ds, OF byId]
  obtain new where new: "snd st = new" "distinct (map id' new)"
    and props: "\<forall>y \<in> set new. id' y \<in> set ds \<and> map_of byId (id' y) = Some y
               \<and> (\<exists>v. map_of inDegree (id' y) = Some v \<and> 1 \<le> v)
               \<and> (\<exists>w. map_of (fst st) (id' y) = Some w \<and> w \<le> 0)"
    unfolding st' by auto
  have new_in: "y \<in> set iss" if "y \<in> set new" for y
    using bspec[OF props that] byIdIn[of "id' y" y] by simp
  have new_pos: "\<exists>v. map_of inDegree (id' y) = Some v \<and> 1 \<le> v" if "y \<in> set new" for y
    using bspec[OF props that] by simp
  have new_zero: "map_of (fst st) (id' y) = Some 0" if yin: "y \<in> set new" for y
  proof -
    obtain w where "map_of (fst st) (id' y) = Some w" "w \<le> 0"
      using bspec[OF props yin] by auto
    then show ?thesis using deg[OF new_in[OF yin]] by simp
  qed
  have res_zero: "map_of inDegree (id' z) = Some 0" if "z \<in> set result" for z
  proof -
    have "z \<in> set iss" using Ir that by blast
    then show ?thesis using Ia[of z] depsFirst_pending[OF Io that] by simp
  qed
  have disj: "id' y \<noteq> id' z" if "y \<in> set new" "z \<in> set (result @ x # q)" for y z
  proof
    assume eq: "id' y = id' z"
    have "map_of inDegree (id' z) = Some 0"
      using that(2) res_zero Iz by auto
    then show False using new_pos[OF that(1)] eq by simp
  qed
  let ?q' = "foldl (\<lambda>q f. insertSorted f q) q (sortIssues (snd st))"
  have setq': "set ?q' = set q \<union> set new"
    by (simp add: set_foldl_insertSorted set_sortIssues new(1))
  have 1: "\<forall>i \<in> set iss. map_of (fst st) (id' i) =
         Some (int (pending ?ids (id' ` set (result @ [x])) (dependsOn i)))"
    using deg by simp
  have 2: "set ?q' \<subseteq> set iss" using setq' Iq new_in by auto
  have 3: "set (result @ [x]) \<subseteq> set iss" using Ir xin by simp
  have dq': "distinct (map id' ?q')"
  proof -
    have dq: "distinct (map id' q)" using Id by simp
    have "id' ` set q \<inter> id' ` set new = {}"
    proof (rule equals0I)
      fix k assume "k \<in> id' ` set q \<inter> id' ` set new"
      then obtain a b where ab: "a \<in> set q" "id' a = k" "b \<in> set new" "id' b = k" by auto
      have "a \<in> set (result @ x # q)" using ab(1) by simp
      from disj[OF ab(3) this] show False using ab by simp
    qed
    then have "distinct (map id' (q @ new))" using dq new(2) by simp
    then show ?thesis
      by (simp add: distinct_map_foldl_insertSorted new(1) distinct_map_sortIssues set_sortIssues)
  qed
  have 4: "distinct (map id' ((result @ [x]) @ ?q'))"
  proof -
    have a: "distinct (map id' (result @ [x]))" using Id by simp
    have b: "id' ` set (result @ [x]) \<inter> id' ` set ?q' = {}"
    proof (rule equals0I)
      fix k assume k: "k \<in> id' ` set (result @ [x]) \<inter> id' ` set ?q'"
      from IntD1[OF k] obtain z where z: "k = id' z" "z \<in> set (result @ [x])"
        by (rule imageE)
      from IntD2[OF k] obtain y where y: "k = id' y" "y \<in> set ?q'"
        by (rule imageE)
      have zin: "z \<in> set (result @ x # q)" using z(2) by auto
      show False
      proof (cases "y \<in> set new")
        case True
        from disj[OF True zin] show False using z(1) y(1) by simp
      next
        case False
        then have yq: "y \<in> set q" using y(2) setq' by simp
        have "id' ` set (result @ [x]) \<inter> id' ` set q = {}" using Id by auto
        moreover have "k \<in> id' ` set (result @ [x])" unfolding z(1) using z(2) by (rule imageI)
        moreover have "k \<in> id' ` set q" unfolding y(1) using yq by (rule imageI)
        ultimately show False by blast
      qed
    qed
    show ?thesis using a b dq' by simp
  qed
  have 5: "\<forall>z \<in> set ?q'. map_of (fst st) (id' z) = Some 0"
  proof
    fix z assume "z \<in> set ?q'"
    then consider "z \<in> set q" | "z \<in> set new" using setq' by auto
    then show "map_of (fst st) (id' z) = Some 0"
    proof cases
      case 1
      then have zin: "z \<in> set iss" using Iq by auto
      have "pending ?ids ?D (dependsOn z) = 0"
        using Ia[OF zin] Iz[of z] 1 by simp
      moreover have "pending ?ids ?D' (dependsOn z) \<le> pending ?ids ?D (dependsOn z)"
        by (rule pending_mono) auto
      ultimately show ?thesis using deg[OF zin] by simp
    next
      case 2
      then show ?thesis by (rule new_zero)
    qed
  qed
  have 6: "depsFirst ?ids (result @ [x])"
    unfolding depsFirst_snoc using Io pend_x unfolding pending_zero by simp
  show ?thesis
    unfolding topoInv_def by (intro conjI 1 2 3 4 5 6)
qed

lemma topoLoop_props:
  "tablesOK iss byId dependents \<Longrightarrow> topoInv iss inDegree queue result \<Longrightarrow>
     set (topoLoop byId dependents inDegree queue result) \<subseteq> set iss
     \<and> distinct (map id' (topoLoop byId dependents inDegree queue result))
     \<and> depsFirst (id' ` set iss) (topoLoop byId dependents inDegree queue result)"
proof (induction byId dependents inDegree queue result rule: topoLoop.induct)
  case (1 byId dependents inDegree result)
  then show ?case unfolding topoInv_def by simp
next
  case (2 byId dependents inDegree issue queue result)
  let ?st = "foldl (freeStep byId) (inDegree, [])
               (case map_of dependents (id' issue) of Some ds \<Rightarrow> ds | None \<Rightarrow> [])"
  have inv: "topoInv iss (fst ?st)
      (foldl (\<lambda>q f. insertSorted f q) queue (sortIssues (snd ?st))) (result @ [issue])"
    by (rule topoInv_step[OF "2.prems"(1) "2.prems"(2) refl])
  have "set (topoLoop byId dependents (fst ?st)
           (foldl (\<lambda>q f. insertSorted f q) queue (sortIssues (snd ?st))) (result @ [issue]))
         \<subseteq> set iss
     \<and> distinct (map id' (topoLoop byId dependents (fst ?st)
           (foldl (\<lambda>q f. insertSorted f q) queue (sortIssues (snd ?st))) (result @ [issue])))
     \<and> depsFirst (id' ` set iss) (topoLoop byId dependents (fst ?st)
           (foldl (\<lambda>q f. insertSorted f q) queue (sortIssues (snd ?st))) (result @ [issue]))"
    by (rule "2.IH"[OF refl refl "2.prems"(1) inv])
  then show ?case by (simp add: Let_def)
qed

lemma byId_Some:
  assumes "map_of (foldl (\<lambda>m issue. AList.update (id' issue) issue m) [] iss) k = Some y"
  shows "id' y = k \<and> y \<in> set iss"
proof (cases "k \<in> id' ` set iss")
  case True
  from map_of_foldl_update_in[OF True, of "\<lambda>i. i" "[]"] assms show ?thesis by auto
next
  case False
  from map_of_foldl_update_notin[OF False, of "\<lambda>i. i" "[]"] assms show ?thesis by simp
qed

lemma byId_defined:
  "map_of (foldl (\<lambda>m issue. AList.update (id' issue) issue m) [] iss) k \<noteq> None
     \<longleftrightarrow> k \<in> id' ` set iss"
proof (cases "k \<in> id' ` set iss")
  case True
  from map_of_foldl_update_in[OF True, of "\<lambda>i. i" "[]"] True show ?thesis by auto
next
  case False
  from map_of_foldl_update_notin[OF False, of "\<lambda>i. i" "[]"] False show ?thesis by simp
qed

lemma const_table:
  "i \<in> set iss \<Longrightarrow>
     map_of (foldl (\<lambda>m issue. AList.update (id' issue) c m) [] iss) (id' i) = Some c"
  using map_of_foldl_update_in[of "id' i" id' iss "\<lambda>i. c" "[]"] by auto

lemma topoSort_tables:
  assumes dist: "distinct (map id' iss)"
  defines "byId \<equiv> foldl (\<lambda>m issue. AList.update (id' issue) issue m) [] iss"
  defines "adj \<equiv> foldl (\<lambda>st issue. foldl (addEdge byId (id' issue)) st (dependsOn issue))
                  (foldl (\<lambda>m issue. AList.update (id' issue) 0 m) [] iss,
                   foldl (\<lambda>m issue. AList.update (id' issue) [] m) [] iss) iss"
  shows "tablesOK iss byId (snd adj)"
    and "topoInv iss (fst adj)
           (sortIssues (filter (\<lambda>i. map_of (fst adj) (id' i) = Some 0) iss)) []"
proof -
  let ?ids = "id' ` set iss"
  let ?P = "\<lambda>d. map_of byId d \<noteq> None"
  have P: "?P d \<longleftrightarrow> d \<in> ?ids" for d
    unfolding byId_def by (rule byId_defined)
  have T1: "\<forall>k y. map_of byId k = Some y \<longrightarrow> id' y = k \<and> y \<in> set iss"
    unfolding byId_def using byId_Some by blast
  have T2: "\<forall>x \<in> set iss. \<exists>ds. map_of (snd adj) (id' x) = Some ds
            \<and> set ds \<subseteq> ?ids
            \<and> (\<forall>j \<in> set iss. count_list ds (id' j) = count_list (dependsOn j) (id' x))"
  proof
    fix x assume xin: "x \<in> set iss"
    let ?ds = "concat (map (\<lambda>i. replicate
                  (count_list (filter ?P (dependsOn i)) (id' x)) (id' i)) iss)"
    have "map_of (snd adj) (id' x) = Some ?ds"
      unfolding adj_def adj_dependents by (simp add: const_table[OF xin])
    moreover have "set ?ds \<subseteq> ?ids" by (rule set_concat_replicate)
    moreover have "\<forall>j \<in> set iss. count_list ?ds (id' j) = count_list (dependsOn j) (id' x)"
    proof
      fix j assume jin: "j \<in> set iss"
      have "count_list ?ds (id' j) = count_list (filter ?P (dependsOn j)) (id' x)"
        by (rule count_list_concat_pick[OF dist jin])
      also have "\<dots> = count_list (dependsOn j) (id' x)"
        unfolding count_list_filter using P[of "id' x"] xin by simp
      finally show "count_list ?ds (id' j) = count_list (dependsOn j) (id' x)" .
    qed
    ultimately show "\<exists>ds. map_of (snd adj) (id' x) = Some ds
            \<and> set ds \<subseteq> ?ids
            \<and> (\<forall>j \<in> set iss. count_list ds (id' j) = count_list (dependsOn j) (id' x))"
      by blast
  qed
  show "tablesOK iss byId (snd adj)"
    unfolding tablesOK_def using T1 T2 by (rule conjI)
  have deg: "\<forall>i \<in> set iss. map_of (fst adj) (id' i) =
         Some (int (pending ?ids (id' ` set []) (dependsOn i)))"
  proof
    fix i assume iin: "i \<in> set iss"
    have "map_of (fst adj) (id' i) =
        Some (\<Sum>j\<leftarrow>iss. if id' j = id' i
                       then int (length (filter ?P (dependsOn j))) else 0)"
      unfolding adj_def adj_degree by (simp add: const_table[OF iin])
    also have "(\<Sum>j\<leftarrow>iss. if id' j = id' i
                       then int (length (filter ?P (dependsOn j))) else 0)
        = int (length (filter ?P (dependsOn i)))"
      by (rule sum_list_pick[OF dist iin])
    also have "filter ?P (dependsOn i) = filter (\<lambda>d. d \<in> ?ids \<and> d \<notin> id' ` set []) (dependsOn i)"
      by (rule filter_cong) (use P in auto)
    finally show "map_of (fst adj) (id' i) =
         Some (int (pending ?ids (id' ` set []) (dependsOn i)))"
      unfolding pending_def .
  qed
  let ?q = "sortIssues (filter (\<lambda>i. map_of (fst adj) (id' i) = Some 0) iss)"
  have q1: "set ?q \<subseteq> set iss" by (simp add: set_sortIssues)
  have q2: "set [] \<subseteq> set iss" by simp
  have q3: "distinct (map id' ([] @ ?q))"
    using dist by (simp add: distinct_map_sortIssues distinct_map_filter)
  have q4: "\<forall>x \<in> set ?q. map_of (fst adj) (id' x) = Some 0"
    by (simp add: set_sortIssues)
  show "topoInv iss (fst adj) ?q []"
    unfolding topoInv_def by (intro conjI deg q1 q2 q3 q4 depsFirst_Nil)
qed

lemma topoSort_props:
  assumes "distinct (map id' iss)"
  shows "set (topoSort iss) \<subseteq> set iss"
    and "distinct (map id' (topoSort iss))"
    and "depsFirst (id' ` set iss) (topoSort iss)"
  using topoLoop_props[OF topoSort_tables[OF assms]]
  unfolding topoSort_def Let_def by simp_all

section \<open>Properties of replan\<close>

subsection \<open>Placement\<close>

lemma scanSprint_ge: "s \<le> fst (scanSprint tc sr m h s)"
proof (induction tc sr m h s rule: scanSprint.induct)
  case (1 tc sr m h s)
  show ?case
  proof (cases "h \<le> fst (getRemaining tc sr s m)")
    case True
    then show ?thesis by (simp add: Let_def)
  next
    case False
    note F = this
    show ?thesis
    proof (cases "100 < s + 1")
      case True
      then show ?thesis using F by (simp add: Let_def)
    next
      case False
      have "s + 1 \<le> fst (scanSprint tc (snd (getRemaining tc sr s m)) m h (s + 1))"
        using "1.IH"[OF refl F False] .
      then show ?thesis using F False by (simp add: Let_def)
    qed
  qed
qed

lemma earliest_fold_ge:
  "(e::nat) \<le> foldl (\<lambda>earliest depId.
              case map_of isp depId of
                Some s \<Rightarrow> if earliest < s then s else earliest
              | None \<Rightarrow> earliest) e deps"
proof (induction deps arbitrary: e)
  case Nil
  show ?case by simp
next
  case (Cons d deps)
  let ?e1 = "case map_of isp d of Some s \<Rightarrow> if e < s then s else e | None \<Rightarrow> e"
  have "e \<le> ?e1" by (cases "map_of isp d") auto
  also have "?e1 \<le> foldl (\<lambda>earliest depId.
              case map_of isp depId of
                Some s \<Rightarrow> if earliest < s then s else earliest
              | None \<Rightarrow> earliest) ?e1 deps"
    by (rule Cons.IH)
  finally show ?case by simp
qed

lemma earliest_fold_dep:
  "d \<in> set deps \<Longrightarrow> map_of isp d = Some s \<Longrightarrow>
     s \<le> foldl (\<lambda>earliest depId.
              case map_of isp depId of
                Some s \<Rightarrow> if earliest < s then s else earliest
              | None \<Rightarrow> earliest) (e::nat) deps"
proof (induction deps arbitrary: e)
  case Nil
  then show ?case by simp
next
  case (Cons d' deps)
  let ?f = "\<lambda>earliest depId.
              case map_of isp depId of
                Some s \<Rightarrow> if earliest < s then s else earliest
              | None \<Rightarrow> earliest"
  show ?case
  proof (cases "d = d'")
    case True
    have "s \<le> ?f e d'" using Cons.prems(2) True by simp
    also have "\<dots> \<le> foldl ?f (?f e d') deps" by (rule earliest_fold_ge)
    finally show ?thesis by simp
  next
    case False
    then have "d \<in> set deps" using Cons.prems(1) by simp
    from Cons.IH[OF this Cons.prems(2)] show ?thesis by simp
  qed
qed

lemma earliestSprint_ge1: "1 \<le> earliestSprint isp deps"
  unfolding earliestSprint_def by (rule earliest_fold_ge)

lemma earliestSprint_dep:
  "d \<in> set deps \<Longrightarrow> map_of isp d = Some s \<Longrightarrow> s \<le> earliestSprint isp deps"
  unfolding earliestSprint_def by (rule earliest_fold_dep)

lemma placeIssue_shape:
  "\<exists>sr' s. placeIssue tc (sr, isp, placed) x =
       (sr', AList.update (id' x) s isp, placed @ [x\<lparr>sprint := s\<rparr>])
     \<and> earliestSprint isp (dependsOn x) \<le> s"
proof (cases "assignee x = [] \<or> estimateHours x = 0")
  case True
  then show ?thesis by (auto simp: placeIssue_def Let_def)
next
  case False
  let ?e = "earliestSprint isp (dependsOn x)"
  let ?found = "scanSprint tc sr (assignee x) (estimateHours x) ?e"
  have "placeIssue tc (sr, isp, placed) x =
      (consumeHours tc (snd ?found) (fst ?found) (assignee x) (estimateHours x),
       AList.update (id' x) (fst ?found) isp, placed @ [x\<lparr>sprint := fst ?found\<rparr>])"
    using False by (simp add: placeIssue_def Let_def)
  moreover have "?e \<le> fst ?found" by (rule scanSprint_ge)
  ultimately show ?thesis by blast
qed

lemma unsprint_eq:
  "p\<lparr>sprint := 0\<rparr> = (q :: int issue)\<lparr>sprint := 0\<rparr> \<Longrightarrow> id' p = id' q \<and> dependsOn p = dependsOn q"
  by (metis issue.select_convs(1) issue.select_convs(9) issue.surjective issue.update_convs(10))

lemma unsprint_map:
  assumes "map (\<lambda>p. p\<lparr>sprint := 0\<rparr>) ps = map (\<lambda>p. (p :: int issue)\<lparr>sprint := 0\<rparr>) xs"
  shows "map id' ps = map id' xs"
    and "p \<in> set ps \<Longrightarrow> \<exists>n < length xs. id' (xs ! n) = id' p \<and> dependsOn (xs ! n) = dependsOn p"
proof -
  have len: "length ps = length xs" using assms by (metis length_map)
  have nth: "id' (ps ! n) = id' (xs ! n) \<and> dependsOn (ps ! n) = dependsOn (xs ! n)"
    if "n < length xs" for n
  proof -
    have "(ps ! n)\<lparr>sprint := 0\<rparr> = (xs ! n)\<lparr>sprint := 0\<rparr>"
      using assms that len by (metis nth_map)
    then show ?thesis by (rule unsprint_eq)
  qed
  show "map id' ps = map id' xs"
    by (rule nth_equalityI) (use len nth in auto)
  show "\<exists>n < length xs. id' (xs ! n) = id' p \<and> dependsOn (xs ! n) = dependsOn p"
    if "p \<in> set ps"
  proof -
    from that obtain n where "n < length ps" "ps ! n = p" by (auto simp: in_set_conv_nth)
    then show ?thesis using nth[of n] len by auto
  qed
qed

lemma placedInv_fold:
  assumes "distinct (map id' xs)" "depsFirst ids xs" "id' ` set xs \<subseteq> ids"
  shows "placedInv ids xs (foldl (placeIssue tc) ([], [], []) xs)"
  using assms
proof (induction xs rule: rev_induct)
  case Nil
  show ?case by (simp add: placedInv_def)
next
  case (snoc x xs)
  have dist: "distinct (map id' xs)" and xnew: "id' x \<notin> id' ` set xs"
    using snoc.prems(1) by simp_all
  have df: "depsFirst ids xs"
    and xdeps: "\<forall>d \<in> set (dependsOn x). d \<in> ids \<longrightarrow> d \<in> id' ` set xs"
    using snoc.prems(2) unfolding depsFirst_snoc by simp_all
  have sub: "id' ` set xs \<subseteq> ids" and xid: "id' x \<in> ids" using snoc.prems(3) by simp_all
  obtain sr isp placed where st: "foldl (placeIssue tc) ([], [], []) xs = (sr, isp, placed)"
    by (cases "foldl (placeIssue tc) ([], [], []) xs") auto
  have inv: "placedInv ids xs (sr, isp, placed)"
    using snoc.IH[OF dist df sub] unfolding st .
  have I1: "map (\<lambda>p. p\<lparr>sprint := 0\<rparr>) placed = map (\<lambda>p. p\<lparr>sprint := 0\<rparr>) xs"
    and I2: "\<forall>p \<in> set placed. map_of isp (id' p) = Some (sprint p)"
    and I3: "\<forall>p \<in> set placed. \<forall>d \<in> set placed. id' d \<in> set (dependsOn p) \<longrightarrow> sprint d \<le> sprint p"
    using inv unfolding placedInv_def by simp_all
  have ids_eq: "map id' placed = map id' xs" by (rule unsprint_map(1)[OF I1])
  then have ids_set: "id' ` set placed = id' ` set xs" by (metis set_map)
  from placeIssue_shape[of tc sr isp placed x] obtain sr' s where
    step: "placeIssue tc (sr, isp, placed) x =
       (sr', AList.update (id' x) s isp, placed @ [x\<lparr>sprint := s\<rparr>])"
    and ge: "earliestSprint isp (dependsOn x) \<le> s"
    by blast
  have fin: "foldl (placeIssue tc) ([], [], []) (xs @ [x]) =
      (sr', AList.update (id' x) s isp, placed @ [x\<lparr>sprint := s\<rparr>])"
    using st step by simp
  let ?x' = "x\<lparr>sprint := s\<rparr>"
  have J1: "map (\<lambda>p. p\<lparr>sprint := 0\<rparr>) (placed @ [?x']) = map (\<lambda>p. p\<lparr>sprint := 0\<rparr>) (xs @ [x])"
    using I1 by simp
  have J2: "\<forall>p \<in> set (placed @ [?x']).
      map_of (AList.update (id' x) s isp) (id' p) = Some (sprint p)"
  proof
    fix p assume "p \<in> set (placed @ [?x'])"
    then consider "p \<in> set placed" | "p = ?x'" by auto
    then show "map_of (AList.update (id' x) s isp) (id' p) = Some (sprint p)"
    proof cases
      case 1
      then have "id' p \<in> id' ` set xs" using ids_set by blast
      then have "id' p \<noteq> id' x" using xnew by auto
      then show ?thesis using bspec[OF I2 1] by (simp add: AList.update_conv')
    next
      case 2
      then show ?thesis by (simp add: AList.update_conv')
    qed
  qed
  have old_new: "sprint d \<le> s" if d: "d \<in> set placed" "id' d \<in> set (dependsOn x)" for d
  proof -
    have "map_of isp (id' d) = Some (sprint d)" using bspec[OF I2 d(1)] .
    from earliestSprint_dep[OF d(2) this] ge show ?thesis by simp
  qed
  have no_fwd: "id' x \<notin> set (dependsOn p)" if p: "p \<in> set placed" for p
  proof
    assume dep: "id' x \<in> set (dependsOn p)"
    from unsprint_map(2)[OF I1 p] obtain n where
      n: "n < length xs" "id' (xs ! n) = id' p" "dependsOn (xs ! n) = dependsOn p" by blast
    have "id' x \<in> id' ` set (take n xs)"
      using df n dep xid unfolding depsFirst_def by auto
    moreover have "set (take n xs) \<subseteq> set xs" by (rule set_take_subset)
    ultimately show False using xnew by blast
  qed
  have J3: "\<forall>p \<in> set (placed @ [?x']). \<forall>d \<in> set (placed @ [?x']).
      id' d \<in> set (dependsOn p) \<longrightarrow> sprint d \<le> sprint p"
  proof (intro ballI impI)
    fix p d
    assume p: "p \<in> set (placed @ [?x'])" and d: "d \<in> set (placed @ [?x'])"
      and dep: "id' d \<in> set (dependsOn p)"
    show "sprint d \<le> sprint p"
    proof (cases "p \<in> set placed")
      case True
      note pin = this
      show ?thesis
      proof (cases "d \<in> set placed")
        case True
        then show ?thesis using I3 pin dep by blast
      next
        case False
        then have "d = ?x'" using d by simp
        then have "id' x \<in> set (dependsOn p)" using dep by simp
        then show ?thesis using no_fwd[OF pin] by simp
      qed
    next
      case False
      then have px: "p = ?x'" using p by simp
      show ?thesis
      proof (cases "d \<in> set placed")
        case True
        then show ?thesis using old_new[of d] dep px by simp
      next
        case False
        then have "d = ?x'" using d by simp
        then show ?thesis using px by simp
      qed
    qed
  qed
  show ?case
    unfolding fin placedInv_def using J1 J2 J3 by simp
qed

lemma replan_placedInv:
  assumes "distinct (map id' iss)"
  shows "placedInv (id' ` set iss) (topoSort iss)
           (foldl (placeIssue tc) ([], [], []) (topoSort iss))"
proof -
  have "id' ` set (topoSort iss) \<subseteq> id' ` set iss"
    using topoSort_props(1)[OF assms] by blast
  then show ?thesis
    by (rule placedInv_fold[OF topoSort_props(2)[OF assms] topoSort_props(3)[OF assms]])
qed

lemma replan_ids:
  assumes "distinct (map id' iss)"
  shows "map id' (replan iss tc) = map id' (topoSort iss)"
  using replan_placedInv[OF assms, of tc] unfolding placedInv_def replan_def
  by (intro unsprint_map(1)) simp

subsection \<open>Dependency chains\<close>

lemma depChain_suffix: "depChain iss (xs @ ys) \<Longrightarrow> depChain iss ys"
proof (induction xs)
  case Nil
  then show ?case by simp
next
  case (Cons x xs)
  then show ?case by (cases "xs @ ys") auto
qed

lemma chain_before:
  assumes dist: "distinct (map id' iss)" and sub: "set out \<subseteq> set iss"
    and df: "depsFirst (id' ` set iss) out"
  shows "n < length out \<Longrightarrow> id' (out ! n) = a \<Longrightarrow> depChain iss (a # path) \<Longrightarrow>
           set path \<subseteq> id' ` set (take n out)"
proof (induction path arbitrary: a n)
  case Nil
  show ?case by simp
next
  case (Cons b rest)
  have edge: "dependsEdge iss a b" and chain: "depChain iss (b # rest)"
    using Cons.prems(3) by simp_all
  from edge obtain x where x: "x \<in> set iss" "id' x = a" "b \<in> set (dependsOn x)"
    and bids: "b \<in> id' ` set iss"
    unfolding dependsEdge_def by blast
  have "out ! n \<in> set iss" using sub Cons.prems(1) by (meson nth_mem subsetD)
  then have "out ! n = x"
    using dist x(1,2) Cons.prems(2) by (simp add: distinct_map inj_on_def)
  then have bin: "b \<in> id' ` set (take n out)"
    using df Cons.prems(1) x(3) bids unfolding depsFirst_def by blast
  then obtain m where m: "m < n" "m < length out" "id' (out ! m) = b"
    using Cons.prems(1) by (auto simp: in_set_conv_nth)
  have "set rest \<subseteq> id' ` set (take m out)"
    by (rule Cons.IH[OF m(2) m(3) chain])
  moreover have "set (take m out) \<subseteq> set (take n out)"
    using m(1) by (rule set_take_subset_set_take[OF less_imp_le])
  ultimately show ?case using bin by auto
qed

lemma cycle_head_not_sorted:
  assumes dist: "distinct (map id' iss)" and sub: "set out \<subseteq> set iss"
    and dout: "distinct (map id' out)"
    and df: "depsFirst (id' ` set iss) out"
    and cyc: "depChain iss (a # path @ [a])"
  shows "a \<notin> id' ` set out"
proof
  assume "a \<in> id' ` set out"
  then obtain n where n: "n < length out" "id' (out ! n) = a"
    by (auto simp: in_set_conv_nth)
  have "set (path @ [a]) \<subseteq> id' ` set (take n out)"
    by (rule chain_before[OF dist sub df n cyc])
  then have "a \<in> id' ` set (take n out)" by simp
  then obtain m where m: "m < n" "id' (out ! m) = a"
    using n(1) by (auto simp: in_set_conv_nth)
  have lm: "m < length (map id' out)" and ln: "n < length (map id' out)"
    using m(1) n(1) by simp_all
  have "map id' out ! m = map id' out ! n" using m n by simp
  then have "m = n"
    using nth_eq_iff_index_eq[OF dout lm ln] by simp
  then show False using m(1) by simp
qed

lemma cycle_not_sorted:
  assumes dist: "distinct (map id' iss)" and sub: "set out \<subseteq> set iss"
    and dout: "distinct (map id' out)"
    and df: "depsFirst (id' ` set iss) out"
    and cyc: "depChain iss (a # path @ [a])"
    and c: "c \<in> set (a # path)"
  shows "c \<notin> id' ` set out"
proof (cases "c = a")
  case True
  then show ?thesis using cycle_head_not_sorted[OF dist sub dout df cyc] by simp
next
  case False
  then have "c \<in> set path" using c by simp
  then obtain p1 p2 where path: "path = p1 @ c # p2" by (meson split_list)
  have "depChain iss ((a # p1) @ (c # p2 @ [a]))" using cyc path by simp
  then have tail: "depChain iss (c # p2 @ [a])" by (rule depChain_suffix)
  show ?thesis
  proof
    assume "c \<in> id' ` set out"
    then obtain n where n: "n < length out" "id' (out ! n) = c"
      by (auto simp: in_set_conv_nth)
    have "set (p2 @ [a]) \<subseteq> id' ` set (take n out)"
      by (rule chain_before[OF dist sub df n tail])
    then have "a \<in> id' ` set (take n out)" by simp
    moreover have "set (take n out) \<subseteq> set out" by (rule set_take_subset)
    ultimately have "a \<in> id' ` set out" by blast
    then show False using cycle_head_not_sorted[OF dist sub dout df cyc] by simp
  qed
qed

lemma cycle_not_replanned:
  assumes dist: "distinct (map id' iss)"
    and cyc: "depChain iss (a # path @ [a])" and c: "c \<in> set (a # path)"
  shows "c \<notin> id' ` set (replan iss tc)"
proof -
  have "c \<notin> id' ` set (topoSort iss)"
    by (rule cycle_not_sorted[OF dist topoSort_props[OF dist] cyc c])
  moreover have "id' ` set (replan iss tc) = id' ` set (topoSort iss)"
    using replan_ids[OF dist, of tc] by (metis set_map)
  ultimately show ?thesis by simp
qed

lemma replan_order:
  assumes dist: "distinct (map id' iss)"
    and i: "i \<in> set (replan iss tc)" and d: "d \<in> set (replan iss tc)"
    and dep: "id' d \<in> set (dependsOn i)"
  shows "sprint d \<le> sprint i"
  using replan_placedInv[OF dist, of tc] i d dep unfolding placedInv_def replan_def by blast

section \<open>The capacity scenario\<close>

text \<open>
  C9. A (high, no dependencies, 40 hours, Alice) and B (medium, depends on A, 50 hours,
  Alice) with capacity Alice = 80: A is placed in sprint 1, which leaves Alice 40 of her
  80 hours there; the earliest sprint of B is 1, where 40 < 50, so B goes to sprint 2.
  The spec's scenario speaks of three issues and describes two: the result is the same
  for A and B alone and with a third issue C (low, no dependencies, 30 hours, Bob).
\<close>

theorem scenario_A_sprint1_B_sprint2:
  "map (\<lambda>i. (key i, sprint i)) (replan [issueA, issueB] [(''Alice'', 80)])
     = [(''A'', 1), (''B'', 2)]
   \<and> map (\<lambda>i. (key i, sprint i)) (replan [issueA, issueB, issueC] [(''Alice'', 80)])
     = [(''A'', 1), (''B'', 2), (''C'', 1)]
   \<and> fst (getRemaining [(''Alice'', 80)]
            (fst (placeIssue [(''Alice'', 80)] ([], [], []) issueA)) 1 ''Alice'') = 40
   \<and> earliestSprint (fst (snd (placeIssue [(''Alice'', 80)] ([], [], []) issueA)))
         (dependsOn issueB) = 1"
  by code_simp

section \<open>Dependency order\<close>

text \<open>
  Ids are unique within a state. The order below rests on it: the tables of
  \<open>topoSort\<close> and \<open>replan\<close> have one entry for an id, so of two issues with one id the
  one placed last may land in a later sprint than an issue placed before it that names
  the id. Here T, with the id of A, is placed in sprint 3 after B, which depends on
  that id, in sprint 2.
\<close>

lemma shared_id_placed_later:
  "map (\<lambda>i. (key i, id' i, sprint i)) (replan [issueA, issueB, issueTwin] [(''Alice'', 80)])
     = [(''A'', 1, 1), (''B'', 2, 2), (''T'', 1, 3)]"
  by code_simp

text \<open>
  C1. For an issue list with unique ids and any capacity table, every issue of the
  result of \<open>replan\<close> is in a sprint no earlier than the sprint of each of its
  dependencies that is in the result too.
\<close>

theorem replan_dependency_invariant:
  assumes "distinct (map id' iss)"
    and "i \<in> set (replan iss caps)"
    and "d \<in> set (replan iss caps)"
    and "id' d \<in> set (dependsOn i)"
  shows "sprint d \<le> sprint i"
  using assms by (rule replan_order)

theorem replan_dependency_invariant_witness:
  "distinct (map id' [issueA, issueB])
   \<and> issueB\<lparr>sprint := 2\<rparr> \<in> set (replan [issueA, issueB] [(''Alice'', 80)])
   \<and> issueA\<lparr>sprint := 1\<rparr> \<in> set (replan [issueA, issueB] [(''Alice'', 80)])
   \<and> id' (issueA\<lparr>sprint := 1\<rparr>) \<in> set (dependsOn (issueB\<lparr>sprint := 2\<rparr>))
   \<and> sprint (issueA\<lparr>sprint := 1\<rparr>) \<le> sprint (issueB\<lparr>sprint := 2\<rparr>)"
proof -
  have h1: "distinct (map id' [issueA, issueB])" by code_simp
  have h2: "issueB\<lparr>sprint := 2\<rparr> \<in> set (replan [issueA, issueB] [(''Alice'', 80)])"
    by code_simp
  have h3: "issueA\<lparr>sprint := 1\<rparr> \<in> set (replan [issueA, issueB] [(''Alice'', 80)])"
    by code_simp
  have h4: "id' (issueA\<lparr>sprint := 1\<rparr>) \<in> set (dependsOn (issueB\<lparr>sprint := 2\<rparr>))"
    by code_simp
  show ?thesis
    by (intro conjI h1 h2 h3 h4 replan_dependency_invariant[OF h1 h2 h3 h4])
qed

section \<open>Dependency cycles\<close>

text \<open>
  C8. A dependency cycle is a chain \<open>a, ..., a\<close> of ids of the issue list in which each
  issue has the next id among its \<open>dependsOn\<close>. For an issue list with unique ids, no
  issue of a cycle is in the result of \<open>replan\<close>, which is a total function and raises
  nothing. For the 2-cycle of X and Y the result is empty.
\<close>

theorem replan_omits_cycles:
  assumes "distinct (map id' iss)"
    and "depChain iss (a # path @ [a])"
    and "c \<in> set (a # path)"
  shows "c \<notin> id' ` set (replan iss caps)"
  using assms by (rule cycle_not_replanned)

theorem replan_omits_cycles_witness:
  "distinct (map id' [issueX, issueY])
   \<and> depChain [issueX, issueY] (1 # [2] @ [1])
   \<and> 1 \<in> set (1 # [2 :: int]) \<and> 2 \<in> set (1 # [2 :: int])
   \<and> 1 \<notin> id' ` set (replan [issueX, issueY] [])
   \<and> 2 \<notin> id' ` set (replan [issueX, issueY] [])
   \<and> replan [issueX, issueY] [] = []"
proof -
  have h1: "distinct (map id' [issueX, issueY])" by code_simp
  have h2: "depChain [issueX, issueY] (1 # [2] @ [1])"
    by (simp add: dependsEdge_def issueX_def issueY_def)
  have h3: "1 \<in> set (1 # [2 :: int])" and h4: "2 \<in> set (1 # [2 :: int])" by simp_all
  have h5: "replan [issueX, issueY] [] = []" by code_simp
  show ?thesis
    by (intro conjI h1 h2 h3 h4 h5 replan_omits_cycles[OF h1 h2 h3]
          replan_omits_cycles[OF h1 h2 h4])
qed

section \<open>Self-references\<close>




section \<open>The capacity scan\<close>

lemma remainingOf_alt:
  "remainingOf tc sr s m =
     (case map_of sr (s, m) of Some v \<Rightarrow> v | None \<Rightarrow> capacityOf tc m)"
  by (simp add: remainingOf_def getRemaining_def capacityOf_def Let_def split: option.splits)

lemma remainingOf_getRemaining:
  "remainingOf tc (snd (getRemaining tc sr s m)) s' m' = remainingOf tc sr s' m'"
  by (auto simp: remainingOf_alt getRemaining_def Let_def AList.update_conv' capacityOf_def
      split: option.splits)



text \<open>
  What the scan returns: a sprint from \<open>s\<close> to one past the last sprint it may check,
  which is sprint 100 (or \<open>s\<close> itself when \<open>s\<close> is beyond 100); every sprint it passed had
  too few hours; and a sprint within the checked range is returned only when it has
  the hours.
\<close>

lemma scanSprint_spec:
  "s \<le> fst (scanSprint tc sr m h s)
   \<and> fst (scanSprint tc sr m h s) \<le> max s 100 + 1
   \<and> (\<forall>t. s \<le> t \<and> t < fst (scanSprint tc sr m h s) \<longrightarrow> remainingOf tc sr t m < h)
   \<and> (fst (scanSprint tc sr m h s) \<le> max s 100 \<longrightarrow>
         h \<le> remainingOf tc sr (fst (scanSprint tc sr m h s)) m)"
proof (induction tc sr m h s rule: scanSprint.induct)
  case (1 tc sr m h s)
  show ?case
  proof (cases "h \<le> fst (getRemaining tc sr s m)")
    case True
    then have "fst (scanSprint tc sr m h s) = s" by (simp add: Let_def)
    then show ?thesis using True by (simp add: remainingOf_def)
  next
    case False
    note F = this
    then have Fr: "remainingOf tc sr s m < h" by (simp add: remainingOf_def)
    show ?thesis
    proof (cases "100 < s + 1")
      case True
      then have res: "fst (scanSprint tc sr m h s) = s + 1" using F by (simp add: Let_def)
      have "\<forall>t. s \<le> t \<and> t < s + 1 \<longrightarrow> remainingOf tc sr t m < h"
        using Fr by (auto simp: le_less_Suc_eq)
      then show ?thesis unfolding res using True by auto
    next
      case False
      let ?sr1 = "snd (getRemaining tc sr s m)"
      let ?r = "fst (scanSprint tc ?sr1 m h (s + 1))"
      have res: "fst (scanSprint tc sr m h s) = ?r" using F False by (simp add: Let_def)
      have IH: "s + 1 \<le> ?r \<and> ?r \<le> max (s + 1) 100 + 1
          \<and> (\<forall>t. s + 1 \<le> t \<and> t < ?r \<longrightarrow> remainingOf tc ?sr1 t m < h)
          \<and> (?r \<le> max (s + 1) 100 \<longrightarrow> h \<le> remainingOf tc ?sr1 ?r m)"
        using "1.IH"[OF refl F False] .
      have mx: "max (s + 1) 100 = max s 100" using False by simp
      have a: "s \<le> ?r" using IH by simp
      have b: "?r \<le> max s 100 + 1" using IH mx by simp
      have c: "\<forall>t. s \<le> t \<and> t < ?r \<longrightarrow> remainingOf tc sr t m < h"
      proof (intro allI impI)
        fix t assume t: "s \<le> t \<and> t < ?r"
        show "remainingOf tc sr t m < h"
        proof (cases "t = s")
          case True
          then show ?thesis using Fr by simp
        next
          case False
          then have "s + 1 \<le> t \<and> t < ?r" using t by simp
          then have "remainingOf tc ?sr1 t m < h" using IH by blast
          then show ?thesis by (simp add: remainingOf_getRemaining)
        qed
      qed
      have d: "?r \<le> max s 100 \<longrightarrow> h \<le> remainingOf tc sr ?r m"
        using IH mx by (simp add: remainingOf_getRemaining)
      show ?thesis unfolding res using a b c d by blast
    qed
  qed
qed

section \<open>Capacity\<close>














section \<open>The scan ceiling\<close>

lemma scan_default_over: "fst (scanSprint [] [] ''Alice'' 100 1) = 101"
proof -
  note scanSprint.simps [simp del]
  let ?r = "fst (scanSprint [] [] ''Alice'' 100 1)"
  have rem: "remainingOf [] [] t ''Alice'' = 80" for t
    by (simp add: remainingOf_alt capacityOf_def)
  from scanSprint_spec[of 1 "[]" "[]" "''Alice''" 100]
  have up: "?r \<le> max 1 100 + 1"
    and ok: "?r \<le> max 1 100 \<longrightarrow> (100 :: rat) \<le> remainingOf [] [] ?r ''Alice''"
    by blast+
  have "\<not> ?r \<le> max 1 100" using ok unfolding rem by auto
  then show ?thesis using up by simp
qed

text \<open>
  C7. The claim that an issue for which no sprint up to the ceiling 100 has the hours
  is assigned to sprint 100 fails: the loop increments the sprint before it compares it
  with 100, so it leaves with sprint 101. An issue of 100 hours for Alice, whose
  capacity is the default 80, finds no sprint from 1 to 100 and is placed in sprint 101.
\<close>

theorem scan_ceiling_counterexample:
  "fst (scanSprint [] [] ''Alice'' 100 1) = 101
   \<and> map sprint (replan [issueOver] []) = [101]"
proof -
  note scanSprint.simps [simp del]
  have t: "topoSort [issueOver] = [issueOver]" by code_simp
  have e: "earliestSprint [] (dependsOn issueOver) = 1"
    by (simp add: earliestSprint_def issueOver_def)
  have a: "assignee issueOver = ''Alice''" "estimateHours issueOver = 100"
    by (simp_all add: issueOver_def)
  have "map sprint (replan [issueOver] []) = [fst (scanSprint [] [] ''Alice'' 100 1)]"
    by (simp add: replan_def t placeIssue_def Let_def e a)
  then show ?thesis using scan_default_over by simp
qed

text \<open>
  C7, as amended. The scan is a total function: it always returns. From the earliest
  sprint \<open>s\<close> it returns a sprint between \<open>s\<close> and one past the last sprint it may
  check, which is 100, or \<open>s\<close> itself when \<open>s\<close> is beyond 100; every sprint it passed
  had fewer remaining hours than the issue needs; and when the returned sprint is
  within the checked range it has the hours. So an issue that finds no sprint up to
  100 is assigned to sprint 101 (to \<open>s + 1\<close> when \<open>s\<close> is beyond 100).
\<close>

theorem scan_terminates_at_ceiling:
  "s \<le> fst (scanSprint caps sprintRemaining member hours s)
   \<and> fst (scanSprint caps sprintRemaining member hours s) \<le> max s 100 + 1
   \<and> (\<forall>t. s \<le> t \<and> t < fst (scanSprint caps sprintRemaining member hours s)
          \<longrightarrow> remainingOf caps sprintRemaining t member < hours)
   \<and> (fst (scanSprint caps sprintRemaining member hours s) \<le> max s 100
          \<longrightarrow> hours \<le> remainingOf caps sprintRemaining
                        (fst (scanSprint caps sprintRemaining member hours s)) member)"
  by (rule scanSprint_spec)

theorem scan_terminates_at_ceiling_witness:
  "fst (scanSprint [] [] ''Alice'' 100 1) = 101"
proof -
  note scanSprint.simps [simp del]
  let ?r = "fst (scanSprint [] [] ''Alice'' 100 1)"
  have rem: "remainingOf [] [] t ''Alice'' = 80" for t
    by (simp add: remainingOf_alt capacityOf_def)
  from scan_terminates_at_ceiling[of 1 "[]" "[]" "''Alice''" 100]
  have up: "?r \<le> max 1 100 + 1"
    and ok: "?r \<le> max 1 100 \<longrightarrow> (100 :: rat) \<le> remainingOf [] [] ?r ''Alice''"
    by blast+
  have "\<not> ?r \<le> max 1 100" using ok unfolding rem by auto
  then show ?thesis using up by simp
qed

section \<open>The codec round trip\<close>

text \<open>A field with none of the four characters is read as it stands.\<close>

lemma parse_plain:
  "comma \<notin> set f \<Longrightarrow> dquote \<notin> set f \<Longrightarrow> LF \<notin> set f \<Longrightarrow> CR \<notin> set f \<Longrightarrow>
     parseLoop (f @ rest) False fld row rows = parseLoop rest False (fld @ f) row rows"
proof (induction f arbitrary: fld)
  case Nil
  show ?case by simp
next
  case (Cons c f)
  have c: "c \<noteq> comma" "c \<noteq> dquote" "c \<noteq> LF" "c \<noteq> CR" using Cons.prems by auto
  have "parseLoop ((c # f) @ rest) False fld row rows
      = parseLoop (f @ rest) False (fld @ [c]) row rows"
    using c by simp
  also have "\<dots> = parseLoop rest False ((fld @ [c]) @ f) row rows"
    using Cons.prems by (intro Cons.IH) auto
  finally show ?case by simp
qed

text \<open>The body of a quoted field, up to its closing quote.\<close>

lemma parse_quoted:
  "rest = [] \<or> hd rest \<noteq> dquote \<Longrightarrow>
     parseLoop (concat (map (\<lambda>c. if c = dquote then [dquote, dquote] else [c]) f)
                  @ dquote # rest) True fld row rows
       = parseLoop rest False (fld @ f) row rows"
proof (induction f arbitrary: fld)
  case Nil
  then show ?case by auto
next
  case (Cons c f)
  show ?case
  proof (cases "c = dquote")
    case True
    have "parseLoop (concat (map (\<lambda>c. if c = dquote then [dquote, dquote] else [c]) (c # f))
                  @ dquote # rest) True fld row rows
        = parseLoop (concat (map (\<lambda>c. if c = dquote then [dquote, dquote] else [c]) f)
                  @ dquote # rest) True (fld @ [dquote]) row rows"
      using True by simp
    also have "\<dots> = parseLoop rest False ((fld @ [dquote]) @ f) row rows"
      by (rule Cons.IH[OF Cons.prems])
    finally show ?thesis using True by simp
  next
    case False
    have "parseLoop (concat (map (\<lambda>c. if c = dquote then [dquote, dquote] else [c]) (c # f))
                  @ dquote # rest) True fld row rows
        = parseLoop (concat (map (\<lambda>c. if c = dquote then [dquote, dquote] else [c]) f)
                  @ dquote # rest) True (fld @ [c]) row rows"
      using False by simp
    also have "\<dots> = parseLoop rest False ((fld @ [c]) @ f) row rows"
      by (rule Cons.IH[OF Cons.prems])
    finally show ?thesis by simp
  qed
qed

lemma parse_escaped:
  assumes "rest = [] \<or> hd rest \<noteq> dquote"
  shows "parseLoop (escapeField f @ rest) False fld row rows
           = parseLoop rest False (fld @ f) row rows"
proof (cases "comma \<in> set f \<or> dquote \<in> set f \<or> LF \<in> set f \<or> CR \<in> set f")
  case True
  then have "escapeField f @ rest =
      dquote # (concat (map (\<lambda>c. if c = dquote then [dquote, dquote] else [c]) f) @ dquote # rest)"
    by (simp add: escapeField_def)
  then show ?thesis using parse_quoted[OF assms] by simp
next
  case False
  then have "escapeField f = f" by (simp add: escapeField_def)
  then show ?thesis using False parse_plain by simp
qed

text \<open>One line of the output: the escaped fields, commas between them, then a line feed.\<close>

lemma parse_line:
  "fs \<noteq> [] \<Longrightarrow>
     parseLoop (joinWith [comma] (map escapeField fs) @ LF # rest) False [] row rows
       = parseLoop rest False [] [] (rows @ [row @ fs])"
proof (induction fs arbitrary: row)
  case Nil
  then show ?case by simp
next
  case (Cons f fs)
  show ?case
  proof (cases fs)
    case Nil
    have "parseLoop (escapeField f @ LF # rest) False [] row rows
        = parseLoop (LF # rest) False ([] @ f) row rows"
      by (rule parse_escaped) simp
    then show ?thesis using Nil by simp
  next
    case (Cons g gs)
    have "parseLoop (escapeField f @ comma # joinWith [comma] (map escapeField fs) @ LF # rest)
              False [] row rows
        = parseLoop (comma # joinWith [comma] (map escapeField fs) @ LF # rest)
              False ([] @ f) row rows"
      by (rule parse_escaped) simp
    also have "\<dots> = parseLoop (joinWith [comma] (map escapeField fs) @ LF # rest)
              False [] (row @ [f]) rows"
      by simp
    also have "\<dots> = parseLoop rest False [] [] (rows @ [(row @ [f]) @ fs])"
      using Cons by (intro Cons.IH) simp
    finally show ?thesis using Cons by simp
  qed
qed

lemma parse_lines:
  "[] \<notin> set ls \<Longrightarrow>
     parseLoop (concat (map (\<lambda>l. joinWith [comma] (map escapeField l) @ [LF]) ls))
        False [] [] rows
       = ([], [], rows @ ls)"
proof (induction ls arbitrary: rows)
  case Nil
  show ?case by simp
next
  case (Cons l ls)
  have l: "l \<noteq> []" and rest: "[] \<notin> set ls" using Cons.prems by auto
  have "parseLoop (concat (map (\<lambda>l. joinWith [comma] (map escapeField l) @ [LF]) (l # ls)))
        False [] [] rows
      = parseLoop (joinWith [comma] (map escapeField l) @ LF #
                     concat (map (\<lambda>l. joinWith [comma] (map escapeField l) @ [LF]) ls))
        False [] [] rows"
    by simp
  also have "\<dots> = parseLoop (concat (map (\<lambda>l. joinWith [comma] (map escapeField l) @ [LF]) ls))
        False [] [] (rows @ [[] @ l])"
    by (rule parse_line[OF l])
  also have "\<dots> = ([], [], (rows @ [[] @ l]) @ ls)"
    by (rule Cons.IH[OF rest])
  finally show ?case by simp
qed

lemma joinWith_concat:
  "xs \<noteq> [] \<Longrightarrow> joinWith sep xs @ sep = concat (map (\<lambda>l. l @ sep) xs)"
  by (induction sep xs rule: joinWith.induct) simp_all

lemma pad_full:
  "length row = n \<Longrightarrow> map (\<lambda>i. escapeField (if i < length row then row ! i else [])) [0 ..< n]
     = map escapeField row"
  by (auto intro!: nth_equalityI)

lemma serializeCSV_lines:
  assumes "\<forall>r \<in> set rows. length r = length headers"
  shows "serializeCSV headers rows =
     concat (map (\<lambda>l. joinWith [comma] (map escapeField l) @ [LF]) (headers # rows))"
proof -
  have pad: "map (\<lambda>row. joinWith [comma]
                  (map (\<lambda>i. escapeField (if i < length row then row ! i else []))
                     [0 ..< length headers])) rows
      = map (\<lambda>row. joinWith [comma] (map escapeField row)) rows"
  proof (intro map_cong refl)
    fix row assume "row \<in> set rows"
    then have "length row = length headers" using assms by blast
    then show "joinWith [comma]
                  (map (\<lambda>i. escapeField (if i < length row then row ! i else []))
                     [0 ..< length headers])
        = joinWith [comma] (map escapeField row)"
      using pad_full[of row "length headers"] by simp
  qed
  have "serializeCSV headers rows =
      joinWith [LF] (map (\<lambda>l. joinWith [comma] (map escapeField l)) (headers # rows)) @ [LF]"
    unfolding serializeCSV_def pad by simp
  also have "\<dots> = concat (map (\<lambda>l. l @ [LF])
        (map (\<lambda>l. joinWith [comma] (map escapeField l)) (headers # rows)))"
    by (rule joinWith_concat) simp
  finally show ?thesis by (simp add: comp_def)
qed

lemma codec_roundtrip:
  assumes h: "headers \<noteq> []"
    and w: "\<forall>r \<in> set rows. length r = length headers"
    and e: "[[]] \<notin> set rows"
  shows "parseCSV (serializeCSV headers rows) = (headers, rows)"
proof -
  have ne: "[] \<notin> set (headers # rows)" using h w by auto
  have loop: "parseLoop (serializeCSV headers rows) False [] [] [] = ([], [], headers # rows)"
    unfolding serializeCSV_lines[OF w] using parse_lines[OF ne, of "[]"] by simp
  have keep: "filter (\<lambda>r. 1 < length r \<or> (case r of [] \<Rightarrow> True | f # _ \<Rightarrow> f \<noteq> [])) rows = rows"
  proof (rule filter_True, intro ballI)
    fix r assume r: "r \<in> set rows"
    then have "r \<noteq> []" "r \<noteq> [[]]" using h w e by auto
    then show "1 < length r \<or> (case r of [] \<Rightarrow> True | f # _ \<Rightarrow> f \<noteq> [])"
      by (cases r; cases "tl r") auto
  qed
  show ?thesis
    unfolding parseCSV_def loop Let_def using keep by simp
qed

text \<open>
  C5. The claim that \<open>parseCSV (serializeCSV headers rows)\<close> gives back every header
  list and row set fails: a row that is one empty field is written as an empty line,
  which the parser drops; a row shorter than the header comes back padded; the empty
  header list comes back as one empty header.
\<close>

theorem codec_roundtrip_counterexample:
  "parseCSV (serializeCSV [''a''] [[[]]]) \<noteq> ([''a''], [[[]]])
   \<and> parseCSV (serializeCSV [''a''] [[[]]]) = ([''a''], [])
   \<and> parseCSV (serializeCSV [''a'', ''b''] [[''x'']]) = ([''a'', ''b''], [[''x'', []]])
   \<and> parseCSV (serializeCSV [] []) = ([[]], [])"
  by code_simp

text \<open>
  C5, as amended. For a header list that is not empty and rows that each have as many
  fields as the header, none of them a single empty field, the fields being any
  strings (with commas, quotes, line feeds and carriage returns),
  \<open>parseCSV (serializeCSV headers rows)\<close> is \<open>(headers, rows)\<close>.
\<close>

theorem codec_roundtrip_full_rows:
  assumes "headers \<noteq> []"
    and "\<forall>r \<in> set rows. length r = length headers"
    and "[[]] \<notin> set rows"
  shows "parseCSV (serializeCSV headers rows) = (headers, rows)"
  using assms by (rule codec_roundtrip)

theorem codec_roundtrip_full_rows_witness:
  "[''a'', ''b''] \<noteq> []
   \<and> [[]] \<notin> set [[''x,y'', ''q'' @ [dquote] @ ''r''], [''l1'' @ [LF] @ ''l2'', ''c'' @ [CR]]]
   \<and> parseCSV (serializeCSV [''a'', ''b'']
         [[''x,y'', ''q'' @ [dquote] @ ''r''], [''l1'' @ [LF] @ ''l2'', ''c'' @ [CR]]])
       = ([''a'', ''b''], [[''x,y'', ''q'' @ [dquote] @ ''r''], [''l1'' @ [LF] @ ''l2'', ''c'' @ [CR]]])"
proof -
  have h1: "[''a'', ''b''] \<noteq> []" by simp
  have h2: "\<forall>r \<in> set [[''x,y'', ''q'' @ [dquote] @ ''r''], [''l1'' @ [LF] @ ''l2'', ''c'' @ [CR]]].
      length r = length [''a'', ''b'']" by simp
  have h3: "[[]] \<notin> set [[''x,y'', ''q'' @ [dquote] @ ''r''], [''l1'' @ [LF] @ ''l2'', ''c'' @ [CR]]]"
    by simp
  show ?thesis
    by (intro conjI h1 h3 codec_roundtrip_full_rows[OF h1 h2 h3])
qed

section \<open>The capacity table after loading\<close>


section \<open>Dependencies after loading\<close>

lemma csvRowToIssue_Some:
  assumes "csvRowToIssue ci row = Some r"
  shows "parseInt (getCell row (issueIdCol ci)) = Some (id' r)"
    and "rawRow r = Some row"
    and "dependsOn r = depTokens ci row"
    and "title r = getCell row (summaryCol ci)"
    and "key r = getCell row (issueKeyCol ci)"
    and "assignee r = getCell row (assigneeCol ci)"
    and "description r = getCell row (descriptionCol ci)"
  using assms
  by (auto simp: csvRowToIssue_def Let_def depTokens_def split: option.splits)


lemma keyToId_Some:
  assumes "map_of (foldl (\<lambda>m i. AList.update (key i) (id' i) m) [] xs) k = Some v"
  shows "\<exists>j \<in> set xs. key j = k \<and> id' j = v"
proof (cases "k \<in> key ` set xs")
  case True
  from map_of_foldl_update_in[OF True, of id' "[]"] assms show ?thesis by auto
next
  case False
  from map_of_foldl_update_notin[OF False, of id' "[]"] assms show ?thesis by simp
qed

lemma set_map_filter: "set (List.map_filter f xs) = {y. \<exists>x \<in> set xs. f x = Some y}"
  by (induction xs) (auto simp: List.map_filter_simps split: option.splits)

lemma loaded_issue:
  assumes "i \<in> set (issues (snd (readTasks st (Some text))))"
  shows "\<exists>row r. row \<in> set (snd (parseCSV text))
           \<and> csvRowToIssue (buildColIndices (fst (parseCSV text))) row = Some r
           \<and> i = resolveIssue
                   (foldl (\<lambda>m i. AList.update (key i) (id' i) m) []
                      (List.map_filter (csvRowToIssue (buildColIndices (fst (parseCSV text))))
                         (snd (parseCSV text)))) r"
  using assms by (auto simp: readTasks_def Let_def set_map_filter)

lemma loaded_dependsOn:
  assumes i: "i \<in> set (issues (snd (readTasks st (Some text))))"
    and d: "d \<in> set (dependsOn i)"
  shows "\<exists>row. rawRow i = Some row
       \<and> ((\<exists>j \<in> set (issues (snd (readTasks st (Some text)))).
               id' j = d \<and> key j \<in> set (depTokens (buildColIndices (fst (parseCSV text))) row))
          \<or> (\<exists>tok \<in> set (depTokens (buildColIndices (fst (parseCSV text))) row).
               parseInt tok = Some d))"
proof -
  let ?ci = "buildColIndices (fst (parseCSV text))"
  let ?read = "List.map_filter (csvRowToIssue ?ci) (snd (parseCSV text))"
  let ?k2i = "foldl (\<lambda>m i. AList.update (key i) (id' i) m) [] ?read"
  from loaded_issue[OF i] obtain row r where
    row: "row \<in> set (snd (parseCSV text))" and r: "csvRowToIssue ?ci row = Some r"
    and ir: "i = resolveIssue ?k2i r"
    by blast
  have raw: "rawRow i = Some row" using ir csvRowToIssue_Some(2)[OF r] by (simp add: resolveIssue_def)
  have "d \<in> set (List.map_filter (resolveDep ?k2i) (dependsOn r))"
    using d ir by (simp add: resolveIssue_def)
  then obtain tok where tok: "tok \<in> set (dependsOn r)" "resolveDep ?k2i tok = Some d"
    unfolding set_map_filter by blast
  have tokrow: "tok \<in> set (depTokens ?ci row)" using tok(1) csvRowToIssue_Some(3)[OF r] by simp
  show ?thesis
  proof (cases "parseInt tok = Some d")
    case True
    then show ?thesis using raw tokrow by blast
  next
    case False
    then have "map_of ?k2i tok = Some d"
      using tok(2) by (auto simp: resolveDep_def split: option.splits if_splits)
    from keyToId_Some[OF this] obtain j where j: "j \<in> set ?read" "key j = tok" "id' j = d"
      by blast
    have "resolveIssue ?k2i j \<in> set (issues (snd (readTasks st (Some text))))"
      using j(1) by (simp add: readTasks_def Let_def)
    moreover have "id' (resolveIssue ?k2i j) = d" using j(3) by (simp add: resolveIssue_def)
    moreover have "key (resolveIssue ?k2i j) \<in> set (depTokens ?ci row)"
      using j(2) tokrow by (simp add: resolveIssue_def)
    ultimately show ?thesis using raw by blast
  qed
qed

text \<open>
  C4. The claim that after loading no \<open>dependsOn\<close> holds an id that is not the id of an
  issue of the set fails: the token 999 matches no key and no issue id, and the first
  issue depends on 999 all the same. The token \<open>nobody\<close> is dropped.
\<close>

theorem dangling_dependency_counterexample:
  "map id' (issues (snd (readTasks initialStore (Some danglingFile)))) = [1, 2]
   \<and> map dependsOn (issues (snd (readTasks initialStore (Some danglingFile)))) = [[999], [1]]"
  by code_simp

text \<open>
  C4, as amended. After loading, an id in the \<open>dependsOn\<close> of an issue is the id of an
  issue of the set whose key is one of the dependency tokens of the issue's row, or it
  is the number that \<open>parseInt\<close> reads from one of these tokens; such a number is kept whether
  or not an issue has it as id. A token that is no key of the set and from which
  \<open>parseInt\<close> reads nothing leaves no id.
\<close>

theorem loaded_dependencies_resolved_or_numeric:
  assumes "i \<in> set (issues (snd (readTasks st (Some text))))"
    and "d \<in> set (dependsOn i)"
  shows "\<exists>row. rawRow i = Some row
       \<and> ((\<exists>j \<in> set (issues (snd (readTasks st (Some text)))).
               id' j = d \<and> key j \<in> set (depTokens (buildColIndices (fst (parseCSV text))) row))
          \<or> (\<exists>tok \<in> set (depTokens (buildColIndices (fst (parseCSV text))) row).
               parseInt tok = Some d))"
  using assms by (rule loaded_dependsOn)

theorem loaded_dependencies_resolved_or_numeric_witness:
  "issues (snd (readTasks initialStore (Some danglingFile))) ! 1
     \<in> set (issues (snd (readTasks initialStore (Some danglingFile))))
   \<and> 1 \<in> set (dependsOn (issues (snd (readTasks initialStore (Some danglingFile))) ! 1))
   \<and> (\<exists>row. rawRow (issues (snd (readTasks initialStore (Some danglingFile))) ! 1) = Some row
       \<and> ((\<exists>j \<in> set (issues (snd (readTasks initialStore (Some danglingFile)))).
               id' j = 1
               \<and> key j \<in> set (depTokens (buildColIndices (fst (parseCSV danglingFile))) row))
          \<or> (\<exists>tok \<in> set (depTokens (buildColIndices (fst (parseCSV danglingFile))) row).
               parseInt tok = Some 1)))"
proof -
  have h1: "issues (snd (readTasks initialStore (Some danglingFile))) ! 1
     \<in> set (issues (snd (readTasks initialStore (Some danglingFile))))"
    by code_simp
  have h2: "1 \<in> set (dependsOn (issues (snd (readTasks initialStore (Some danglingFile))) ! 1))"
    by code_simp
  show ?thesis
    by (intro conjI h1 h2 loaded_dependencies_resolved_or_numeric[OF h1 h2])
qed

section \<open>Saving what was loaded\<close>















end
